theory Spec2Isabelle
  imports Complex_Main
begin

section \<open>Python strings\<close>

text \<open>
  A Python \<open>str\<close> is a sequence of Unicode code points; \<open>len\<close> counts code points.
  A string is modelled as the list of its code points, so that \<open>length\<close> is \<open>len\<close>,
  \<open>drop n\<close> is \<open>s[n:]\<close> and \<open>take n\<close> is \<open>s[:n]\<close> for the non-negative \<open>n\<close> the
  sources use.
\<close>

type_synonym pystr = "nat list"

text \<open>
  \<open>str.isspace\<close> on one code point, which is also what \<open>\s\<close> matches in a \<open>str\<close> pattern:
  U+0009..U+000D, U+001C..U+0020, U+0085, U+00A0, U+1680, U+2000..U+200A, U+2028, U+2029,
  U+202F, U+205F, U+3000.
\<close>

definition isspace :: "nat \<Rightarrow> bool" where
  "isspace c \<longleftrightarrow>
     (9 \<le> c \<and> c \<le> 13) \<or> (28 \<le> c \<and> c \<le> 32) \<or> c = 133 \<or> c = 160 \<or> c = 5760 \<or>
     (8192 \<le> c \<and> c \<le> 8202) \<or> c = 8232 \<or> c = 8233 \<or> c = 8239 \<or> c = 8287 \<or> c = 12288"

text \<open>\<open>s.strip()\<close>: leading and trailing whitespace removed.\<close>

definition strip :: "pystr \<Rightarrow> pystr" where
  "strip s = rev (dropWhile isspace (rev (dropWhile isspace s)))"

text \<open>\<open>s.rfind(c)\<close> for a one-character needle: the highest index of \<open>c\<close>, or \<open>-1\<close>.\<close>

fun rfind :: "pystr \<Rightarrow> nat \<Rightarrow> int" where
  "rfind [] c = - 1"
| "rfind (x # xs) c =
     (let r = rfind xs c in if 0 \<le> r then r + 1 else if x = c then 0 else - 1)"

text \<open>
  \<open>s.find(sub, start)\<close>: the lowest index \<open>i \<ge> start\<close> with \<open>s[i:i+len(sub)] = sub\<close>,
  or \<open>-1\<close>. \<open>find_offset\<close> is the scan from the head of a suffix.
\<close>

fun find_offset :: "pystr \<Rightarrow> pystr \<Rightarrow> nat option" where
  "find_offset sub [] = (if sub = [] then Some 0 else None)"
| "find_offset sub (x # xs) =
     (if take (length sub) (x # xs) = sub then Some 0
      else map_option Suc (find_offset sub xs))"

definition find_str :: "pystr \<Rightarrow> pystr \<Rightarrow> nat \<Rightarrow> int" where
  "find_str s sub start =
     (if length s < start then - 1
      else case find_offset sub (drop start s) of
             None \<Rightarrow> - 1
           | Some k \<Rightarrow> int (start + k))"

section \<open>The sentence-end pattern\<close>

text \<open>
  Both chunkers compile the pattern \<^verbatim>\<open>[.!?]["']?\s+|[.!?]["']?$\<close>: a terminator, an
  optional closing quote (the class holds only the two ASCII quotes), then either a run
  of whitespace or the end of the searched string. Without \<open>re.MULTILINE\<close>, \<open>$\<close> holds at
  the end of the string and just before a newline that ends it.
\<close>

definition is_terminator :: "nat \<Rightarrow> bool" where
  "is_terminator c \<longleftrightarrow> c = 46 \<or> c = 33 \<or> c = 63"

definition is_quote :: "nat \<Rightarrow> bool" where
  "is_quote c \<longleftrightarrow> c = 34 \<or> c = 39"

definition at_dollar :: "pystr \<Rightarrow> bool" where
  "at_dollar s \<longleftrightarrow> s = [] \<or> s = [10]"

text \<open>\<open>\s+\<close> at the head of a suffix: the length of the greedy run, if it is not empty.\<close>

definition ws_plus :: "pystr \<Rightarrow> nat option" where
  "ws_plus s = (let n = length (takeWhile isspace s) in if 0 < n then Some n else None)"

text \<open>
  What follows the terminator, in the order the backtracking matcher tries it: the
  first alternative with the quote taken, then without it; then the second alternative
  with the quote taken, then without it. The result is the number of characters matched
  after the terminator.
\<close>

definition alt_ws :: "pystr \<Rightarrow> nat option" where
  "alt_ws s =
     (case (case s of q # r \<Rightarrow> if is_quote q then ws_plus r else None | [] \<Rightarrow> None) of
        Some n \<Rightarrow> Some (Suc n)
      | None \<Rightarrow> ws_plus s)"

definition alt_end :: "pystr \<Rightarrow> nat option" where
  "alt_end s =
     (if (case s of q # r \<Rightarrow> is_quote q \<and> at_dollar r | [] \<Rightarrow> False) then Some 1
      else if at_dollar s then Some 0 else None)"

text \<open>The pattern anchored at the head of a suffix: the length of its match.\<close>

fun match_here :: "pystr \<Rightarrow> nat option" where
  "match_here [] = None"
| "match_here (c # s) =
     (if is_terminator c then
        (case alt_ws s of
           Some n \<Rightarrow> Some (Suc n)
         | None \<Rightarrow> (case alt_end s of Some n \<Rightarrow> Some (Suc n) | None \<Rightarrow> None))
      else None)"

lemma ws_plus_bounds: "ws_plus s = Some n \<Longrightarrow> 0 < n \<and> n \<le> length s"
  using length_takeWhile_le [of isspace s]
  by (auto simp: ws_plus_def Let_def split: if_splits)

lemma alt_ws_bounds: "alt_ws s = Some n \<Longrightarrow> 0 < n \<and> n \<le> length s"
  by (auto simp: alt_ws_def split: list.splits option.splits if_splits
      dest: ws_plus_bounds)

lemma alt_end_bounds: "alt_end s = Some n \<Longrightarrow> n \<le> length s"
  by (auto simp: alt_end_def split: list.splits if_splits)

lemma match_here_bounds: "match_here s = Some n \<Longrightarrow> 0 < n \<and> n \<le> length s"
  by (cases s) (auto split: if_splits option.splits dest: alt_ws_bounds alt_end_bounds)

text \<open>
  \<open>pattern.finditer(s)\<close>: the non-overlapping matches from left to right, each as its
  \<open>(start(), end())\<close> pair. After a match the scan resumes at its end; where the pattern
  does not match, one character further. \<open>off\<close> is the index of the head of the suffix.
\<close>

function finditer_from :: "nat \<Rightarrow> pystr \<Rightarrow> (nat \<times> nat) list" where
  "finditer_from off s =
     (if s = [] then []
      else case match_here s of
             Some n \<Rightarrow> (off, off + n) # finditer_from (off + n) (drop n s)
           | None \<Rightarrow> finditer_from (Suc off) (tl s))"
  by pat_completeness auto
termination
  by (relation "measure (\<lambda>(off, s). length s)") (auto dest: match_here_bounds)

declare finditer_from.simps [simp del]

definition finditer :: "pystr \<Rightarrow> (nat \<times> nat) list" where
  "finditer s = finditer_from 0 s"

lemma finditer_from_bounds:
  "(a, b) \<in> set (finditer_from off s) \<Longrightarrow> off \<le> a \<and> a < b \<and> b \<le> off + length s"
proof (induction off s rule: finditer_from.induct)
  case (1 off s)
  show ?case
  proof (cases "s = []")
    case True
    with "1.prems" show ?thesis by (simp add: finditer_from.simps [of off "[]"])
  next
    case False
    show ?thesis
    proof (cases "match_here s")
      case None
      with False "1.prems" have "(a, b) \<in> set (finditer_from (Suc off) (tl s))"
        by (simp add: finditer_from.simps [of off s])
      from "1.IH"(1) [OF False None this] False show ?thesis
        by (cases s) auto
    next
      case (Some n)
      from match_here_bounds [OF Some] have n: "0 < n" "n \<le> length s" by simp_all
      from False Some "1.prems"
      consider "(a, b) = (off, off + n)" | "(a, b) \<in> set (finditer_from (off + n) (drop n s))"
        by (auto simp: finditer_from.simps [of off s])
      then show ?thesis
      proof cases
        case 1
        with n show ?thesis by simp
      next
        case 2
        from "1.IH"(2) [OF False Some 2] n show ?thesis by simp
      qed
    qed
  qed
qed

lemma finditer_bounds: "(a, b) \<in> set (finditer s) \<Longrightarrow> a < b \<and> b \<le> length s"
  using finditer_from_bounds [of a b 0 s] by (simp add: finditer_def)

lemma rfind_bounds: "- 1 \<le> rfind s c \<and> rfind s c < int (length s)"
  by (induction s) (auto simp: Let_def)

section \<open>The sentence-first chunker (example_tts_long_input.py)\<close>

text \<open>
  The dataclass \<open>TextChunk\<close>. Its field \<open>text\<close> is called \<open>ctext\<close> here, and the
  character offsets, which are never negative, are natural numbers.
\<close>

record TextChunk =
  ctext :: pystr
  start_char :: nat
  end_char :: nat

definition MIN_CHUNK_SIZE :: nat where
  "MIN_CHUNK_SIZE = 1000"

definition MAX_CHUNK_SIZE :: nat where
  "MAX_CHUNK_SIZE = 1900"

text \<open>
  Lines 92 to 108 of \<open>chunk_text\<close>: the cut offset \<open>chunk_end\<close> computed from
  \<open>remaining_text\<close>. \<open>snd m\<close> is \<open>m.end()\<close>.
\<close>

definition chunk_end_of :: "pystr \<Rightarrow> nat" where
  "chunk_end_of remaining_text =
     (let search_text = take MAX_CHUNK_SIZE remaining_text;
          matches = finditer search_text;
          valid_matches = filter (\<lambda>m. MIN_CHUNK_SIZE \<le> snd m) matches
      in if valid_matches \<noteq> [] then snd (hd valid_matches)
         else if matches \<noteq> [] then snd (last matches)
         else (let space_index = rfind search_text 32
               in if 0 < space_index then nat (space_index + 1) else MAX_CHUNK_SIZE))"

lemma chunk_end_of_bounds: "0 < chunk_end_of r \<and> chunk_end_of r \<le> MAX_CHUNK_SIZE"
proof -
  let ?w = "take MAX_CHUNK_SIZE r"
  let ?ms = "finditer ?w"
  let ?vs = "filter (\<lambda>m. MIN_CHUNK_SIZE \<le> snd m) ?ms"
  have len: "length ?w \<le> MAX_CHUNK_SIZE" by simp
  have m: "0 < snd m \<and> snd m \<le> MAX_CHUNK_SIZE" if "m \<in> set ?ms" for m
    using finditer_bounds [of "fst m" "snd m" ?w] that len by auto
  show ?thesis
  proof (cases "?vs \<noteq> []")
    case True
    then have "hd ?vs \<in> set ?ms"
      using hd_in_set [OF True] by auto
    from m [OF this] True show ?thesis
      by (simp add: chunk_end_of_def Let_def)
  next
    case no_valid: False
    show ?thesis
    proof (cases "?ms \<noteq> []")
      case True
      then have "last ?ms \<in> set ?ms" by simp
      from m [OF this] True no_valid show ?thesis
        by (simp add: chunk_end_of_def Let_def)
    next
      case False
      from rfind_bounds [of ?w 32] len
      have "rfind ?w 32 < int MAX_CHUNK_SIZE" by linarith
      with False no_valid show ?thesis
        by (auto simp: chunk_end_of_def Let_def MAX_CHUNK_SIZE_def)
    qed
  qed
qed

text \<open>
  The \<open>while\<close> loop of \<open>chunk_text\<close>, with its two variables \<open>chunks\<close> and
  \<open>current_position\<close> as arguments; \<open>break\<close> and the end of the loop return \<open>chunks\<close>.
\<close>

function chunk_loop :: "pystr \<Rightarrow> TextChunk list \<Rightarrow> nat \<Rightarrow> TextChunk list" where
  "chunk_loop doc chunks current_position =
     (if current_position < length doc then
        (let remaining_text = drop current_position doc in
         if length remaining_text \<le> MAX_CHUNK_SIZE then
           (let chunk = strip remaining_text in
            if chunk \<noteq> [] then
              chunks @ [\<lparr>ctext = chunk, start_char = current_position, end_char = length doc\<rparr>]
            else chunks)
         else
           (let chunk_end = chunk_end_of remaining_text;
                chunk = strip (take chunk_end remaining_text)
            in chunk_loop doc
                 (if chunk \<noteq> [] then
                    chunks @ [\<lparr>ctext = chunk, start_char = current_position,
                               end_char = current_position + chunk_end\<rparr>]
                  else chunks)
                 (current_position + chunk_end)))
      else chunks)"
  by pat_completeness auto
termination
proof (relation "measure (\<lambda>(doc, chunks, pos). length doc - pos)")
  show "wf (measure (\<lambda>(doc, chunks, pos). length doc - pos))" by simp
next
  fix doc :: pystr and chunks :: "TextChunk list" and current_position :: nat
    and x :: pystr and xa :: nat and xb :: pystr
  assume "current_position < length doc" and "x = drop current_position doc"
    and "xa = chunk_end_of x"
  moreover have "0 < chunk_end_of x"
    using chunk_end_of_bounds [of x] by simp
  ultimately
  show "((doc, if xb \<noteq> [] then chunks @ [\<lparr>ctext = xb, start_char = current_position,
            end_char = current_position + xa\<rparr>] else chunks, current_position + xa),
         doc, chunks, current_position) \<in> measure (\<lambda>(doc, chunks, pos). length doc - pos)"
    by simp
qed

declare chunk_loop.simps [simp del]

definition chunk_text :: "pystr \<Rightarrow> TextChunk list" where
  "chunk_text doc = chunk_loop doc [] 0"

section \<open>The natural-boundary chunker (example_tts_long_input_compressed.py)\<close>

text \<open>
  The second script has its own constants and its own \<open>chunk_text\<close>; its names carry
  the suffix \<open>_mp3\<close> here. Its \<open>TextChunk\<close> class is the same dataclass.
\<close>

definition MIN_CHUNK_SIZE_mp3 :: nat where
  "MIN_CHUNK_SIZE_mp3 = 500"

definition MAX_CHUNK_SIZE_mp3 :: nat where
  "MAX_CHUNK_SIZE_mp3 = 1900"

lemma find_offset_bounds: "find_offset sub s = Some k \<Longrightarrow> k + length sub \<le> length s"
proof (induction s arbitrary: k)
  case Nil
  then show ?case by (simp split: if_splits)
next
  case (Cons x xs)
  show ?case
  proof (cases "take (length sub) (x # xs) = sub")
    case True
    from arg_cong [OF True, of length] have "length sub \<le> length (x # xs)"
      by simp
    with True Cons.prems show ?thesis by simp
  next
    case False
    with Cons.prems obtain k' where "find_offset sub xs = Some k'" "k = Suc k'"
      by auto
    with Cons.IH show ?thesis by auto
  qed
qed

lemma find_str_bounds:
  assumes "find_str s sub start \<noteq> - 1"
  shows "int start \<le> find_str s sub start"
    and "find_str s sub start + int (length sub) \<le> int (length s)"
proof -
  from assms obtain k where k: "find_offset sub (drop start s) = Some k"
    and le: "start \<le> length s" and idx: "find_str s sub start = int (start + k)"
    by (auto simp: find_str_def split: if_splits option.splits)
  from idx show "int start \<le> find_str s sub start" by simp
  from find_offset_bounds [OF k] le idx
  show "find_str s sub start + int (length sub) \<le> int (length s)" by simp
qed

text \<open>
  The two \<open>while True\<close> loops of \<open>find_break_point\<close> (paragraph breaks, then line
  breaks) are the same loop over a different needle \<open>sub\<close>. \<open>None\<close> is its \<open>break\<close>;
  \<open>Some idx\<close> is the index at which it returns (the caller adds the needle's length).
\<close>

function newline_scan :: "pystr \<Rightarrow> pystr \<Rightarrow> nat \<Rightarrow> nat \<Rightarrow> nat \<Rightarrow> int option" where
  "newline_scan search_text sub min_pos max_pos search_start =
     (let idx = find_str search_text sub search_start in
      if idx = - 1 \<or> int max_pos \<le> idx then None
      else if int min_pos \<le> idx then Some idx
      else newline_scan search_text sub min_pos max_pos (nat (idx + 1)))"
  by pat_completeness auto
termination
proof (relation "measure (\<lambda>(search_text, sub, min_pos, max_pos, search_start).
    max_pos - search_start)")
  show "wf (measure (\<lambda>(search_text, sub, min_pos, max_pos, search_start).
    max_pos - search_start))"
    by simp
next
  fix search_text sub :: pystr and min_pos max_pos search_start :: nat and x :: int
  assume x: "x = find_str search_text sub search_start"
    and "\<not> (x = - 1 \<or> int max_pos \<le> x)"
  then have "x \<noteq> - 1" "x < int max_pos" by simp_all
  moreover from find_str_bounds(1) [of search_text sub search_start] x \<open>x \<noteq> - 1\<close>
  have "int search_start \<le> x" by simp
  ultimately
  show "((search_text, sub, min_pos, max_pos, nat (x + 1)),
         search_text, sub, min_pos, max_pos, search_start)
        \<in> measure (\<lambda>(search_text, sub, min_pos, max_pos, search_start).
             max_pos - search_start)"
    by simp
qed

declare newline_scan.simps [simp del]

text \<open>
  \<open>find_break_point\<close>. \<open>chunk_index\<close> is only printed. The fourth step's loop keeps the
  \<open>end()\<close> of the last match in \<open>last_sentence_end\<close>, which starts at \<open>-1\<close>.
\<close>

definition find_break_point :: "pystr \<Rightarrow> nat \<Rightarrow> nat \<Rightarrow> nat \<Rightarrow> nat" where
  "find_break_point s min_pos max_pos chunk_index =
     (let search_text = take max_pos s in
      case newline_scan search_text [10, 10] min_pos max_pos min_pos of
        Some idx \<Rightarrow> nat (idx + 2)
      | None \<Rightarrow>
     (case newline_scan search_text [10] min_pos max_pos min_pos of
        Some idx \<Rightarrow> nat (idx + 1)
      | None \<Rightarrow>
     (case List.find (\<lambda>m. min_pos \<le> fst m) (finditer search_text) of
        Some m \<Rightarrow> snd m
      | None \<Rightarrow>
     (let last_sentence_end = foldl (\<lambda>e m. int (snd m)) (- 1) (finditer search_text) in
      if 0 < last_sentence_end then nat last_sentence_end
      else (let space_index = rfind search_text 32
            in if 0 < space_index then nat (space_index + 1) else max_pos)))))"

lemma newline_scan_bounds:
  "newline_scan w sub mn mx ss = Some idx \<Longrightarrow>
     0 \<le> idx \<and> idx + int (length sub) \<le> int (length w)"
proof (induction w sub mn mx ss rule: newline_scan.induct)
  case (1 w sub mn mx ss)
  let ?i = "find_str w sub ss"
  show ?case
  proof (cases "?i = - 1 \<or> int mx \<le> ?i")
    case True
    with "1.prems" show ?thesis
      by (simp add: newline_scan.simps [of w sub mn mx ss])
  next
    case False
    then have ne: "?i \<noteq> - 1" by simp
    show ?thesis
    proof (cases "int mn \<le> ?i")
      case True
      with False "1.prems" have "idx = ?i"
        by (simp add: newline_scan.simps [of w sub mn mx ss])
      with find_str_bounds [OF ne] show ?thesis by simp
    next
      case low: False
      with False "1.prems" have "newline_scan w sub mn mx (nat (?i + 1)) = Some idx"
        by (simp add: newline_scan.simps [of w sub mn mx ss])
      from "1.IH" [OF refl False low this] show ?thesis .
    qed
  qed
qed

lemma foldl_last_end:
  "foldl (\<lambda>e m. int (snd m)) e ms = (if ms = [] then e else int (snd (last ms)))"
  by (induction ms arbitrary: e) auto

lemma find_break_point_bounds:
  assumes "0 < mx"
  shows "0 < find_break_point r mn mx k \<and> find_break_point r mn mx k \<le> mx"
proof -
  let ?w = "take mx r"
  have len: "length ?w \<le> mx" by simp
  have m: "0 < snd m \<and> snd m \<le> mx" if "m \<in> set (finditer ?w)" for m
    using finditer_bounds [of "fst m" "snd m" ?w] that len by auto
  show ?thesis
  proof (cases "newline_scan ?w [10, 10] mn mx mn")
    case (Some idx)
    from newline_scan_bounds [OF Some] have "0 \<le> idx" "idx + 2 \<le> int (length ?w)"
      by simp_all
    with len have "nat (idx + 2) \<le> mx" "0 < nat (idx + 2)"
      by linarith+
    with Some show ?thesis
      by (simp add: find_break_point_def)
  next
    case para: None
    show ?thesis
    proof (cases "newline_scan ?w [10] mn mx mn")
      case (Some idx)
      from newline_scan_bounds [OF Some] have "0 \<le> idx" "idx + 1 \<le> int (length ?w)"
        by simp_all
      with len have "nat (idx + 1) \<le> mx" "0 < nat (idx + 1)"
        by linarith+
      with para Some show ?thesis
        by (simp add: find_break_point_def)
    next
      case line: None
      show ?thesis
      proof (cases "List.find (\<lambda>m. mn \<le> fst m) (finditer ?w)")
        case (Some m')
        then have "m' \<in> set (finditer ?w)"
          by (auto simp: find_Some_iff)
        from m [OF this] para line Some show ?thesis
          by (simp add: find_break_point_def)
      next
        case first: None
        show ?thesis
        proof (cases "finditer ?w = []")
          case False
          then have "last (finditer ?w) \<in> set (finditer ?w)" by simp
          from m [OF this] para line first False show ?thesis
            by (simp add: find_break_point_def foldl_last_end)
        next
          case True
          from rfind_bounds [of ?w 32] len have "rfind ?w 32 < int mx" by linarith
          with para line first True assms show ?thesis
            by (auto simp: find_break_point_def Let_def)
        qed
      qed
    qed
  qed
qed

function chunk_loop_mp3 :: "pystr \<Rightarrow> TextChunk list \<Rightarrow> nat \<Rightarrow> TextChunk list" where
  "chunk_loop_mp3 doc chunks current_position =
     (if current_position < length doc then
        (let remaining_text = drop current_position doc in
         if length remaining_text \<le> MAX_CHUNK_SIZE_mp3 then
           (let chunk_content = strip remaining_text in
            if chunk_content \<noteq> [] then
              chunks @ [\<lparr>ctext = chunk_content, start_char = current_position,
                         end_char = length doc\<rparr>]
            else chunks)
         else
           (let chunk_end = find_break_point remaining_text MIN_CHUNK_SIZE_mp3
                              MAX_CHUNK_SIZE_mp3 (length chunks);
                chunk_content = strip (take chunk_end remaining_text)
            in chunk_loop_mp3 doc
                 (if chunk_content \<noteq> [] then
                    chunks @ [\<lparr>ctext = chunk_content, start_char = current_position,
                               end_char = current_position + chunk_end\<rparr>]
                  else chunks)
                 (current_position + chunk_end)))
      else chunks)"
  by pat_completeness auto
termination
proof (relation "measure (\<lambda>(doc, chunks, pos). length doc - pos)")
  show "wf (measure (\<lambda>(doc, chunks, pos). length doc - pos))" by simp
next
  fix doc :: pystr and chunks :: "TextChunk list" and current_position :: nat
    and x :: pystr and xa :: nat and xb :: pystr
  assume "current_position < length doc"
    and "xa = find_break_point x MIN_CHUNK_SIZE_mp3 MAX_CHUNK_SIZE_mp3 (length chunks)"
  moreover have "0 < find_break_point x MIN_CHUNK_SIZE_mp3 MAX_CHUNK_SIZE_mp3 (length chunks)"
    using find_break_point_bounds [of MAX_CHUNK_SIZE_mp3 x MIN_CHUNK_SIZE_mp3 "length chunks"]
    by (simp add: MAX_CHUNK_SIZE_mp3_def)
  ultimately
  show "((doc, if xb \<noteq> [] then chunks @ [\<lparr>ctext = xb, start_char = current_position,
            end_char = current_position + xa\<rparr>] else chunks, current_position + xa),
         doc, chunks, current_position) \<in> measure (\<lambda>(doc, chunks, pos). length doc - pos)"
    by simp
qed

declare chunk_loop_mp3.simps [simp del]

definition chunk_text_mp3 :: "pystr \<Rightarrow> TextChunk list" where
  "chunk_text_mp3 doc = chunk_loop_mp3 doc [] 0"

section \<open>What both chunking loops maintain\<close>

lemma strip_Nil_iff: "strip s = [] \<longleftrightarrow> (\<forall>c\<in>set s. isspace c)"
proof
  assume "strip s = []"
  then have all: "\<forall>c\<in>set (dropWhile isspace s). isspace c"
    by (simp add: strip_def)
  have "dropWhile isspace s = []"
  proof (rule ccontr)
    assume ne: "dropWhile isspace s \<noteq> []"
    then have "\<not> isspace (hd (dropWhile isspace s))" by (rule hd_dropWhile)
    moreover from ne have "hd (dropWhile isspace s) \<in> set (dropWhile isspace s)" by simp
    ultimately show False using all by blast
  qed
  then show "\<forall>c\<in>set s. isspace c" by simp
next
  assume "\<forall>c\<in>set s. isspace c"
  then have "dropWhile isspace s = []" by simp
  then show "strip s = []" by (simp add: strip_def del: dropWhile_eq_Nil_conv)
qed

text \<open>
  A recorded chunk: its range is a non-empty range of the document of at most \<open>mx\<close>
  characters, and its text is the trimmed slice, which is not empty.
\<close>

definition chunk_ok :: "nat \<Rightarrow> pystr \<Rightarrow> TextChunk \<Rightarrow> bool" where
  "chunk_ok mx doc c \<longleftrightarrow>
     start_char c < end_char c \<and> end_char c \<le> length doc \<and>
     end_char c - start_char c \<le> mx \<and>
     ctext c = strip (take (end_char c - start_char c) (drop (start_char c) doc)) \<and>
     ctext c \<noteq> []"

text \<open>
  The loop invariant at cursor \<open>pos\<close>: every chunk is a recorded chunk ending at or
  before the cursor, the chunks are in ascending order without overlap, and every
  character before the cursor that no chunk covers is whitespace.
\<close>

definition chunks_inv :: "nat \<Rightarrow> pystr \<Rightarrow> TextChunk list \<Rightarrow> nat \<Rightarrow> bool" where
  "chunks_inv mx doc chunks pos \<longleftrightarrow>
     (\<forall>c\<in>set chunks. chunk_ok mx doc c \<and> end_char c \<le> pos) \<and>
     sorted_wrt (\<lambda>a b. end_char a \<le> start_char b) chunks \<and>
     (\<forall>j<pos. j < length doc \<longrightarrow> \<not> isspace (doc ! j) \<longrightarrow>
        (\<exists>c\<in>set chunks. start_char c \<le> j \<and> j < end_char c))"

lemma chunks_inv_empty: "chunks_inv mx doc [] 0"
  by (simp add: chunks_inv_def)

lemma chunks_inv_step:
  assumes inv: "chunks_inv mx doc chunks pos"
    and n: "0 < n" "n \<le> mx" "pos + n \<le> length doc"
  shows "chunks_inv mx doc
           (if strip (take n (drop pos doc)) \<noteq> [] then
              chunks @ [\<lparr>ctext = strip (take n (drop pos doc)), start_char = pos,
                         end_char = pos + n\<rparr>]
            else chunks)
           (pos + n)"
proof (cases "strip (take n (drop pos doc)) = []")
  case True
  have ws: "isspace (doc ! j)" if "pos \<le> j" "j < pos + n" for j
  proof -
    from that n have "j - pos < length (take n (drop pos doc))" by simp
    then have "take n (drop pos doc) ! (j - pos) \<in> set (take n (drop pos doc))"
      by (rule nth_mem)
    moreover from that n have "take n (drop pos doc) ! (j - pos) = doc ! j" by simp
    ultimately show ?thesis using True by (simp add: strip_Nil_iff)
  qed
  have "\<exists>c\<in>set chunks. start_char c \<le> j \<and> j < end_char c"
    if "j < pos + n" "j < length doc" "\<not> isspace (doc ! j)" for j
  proof (cases "j < pos")
    case True
    with inv that show ?thesis by (simp add: chunks_inv_def)
  next
    case False
    with ws [of j] that show ?thesis by simp
  qed
  moreover from inv have "\<forall>c\<in>set chunks. chunk_ok mx doc c \<and> end_char c \<le> pos + n"
    by (auto simp: chunks_inv_def)
  moreover from inv have "sorted_wrt (\<lambda>a b. end_char a \<le> start_char b) chunks"
    by (simp add: chunks_inv_def)
  ultimately show ?thesis using True by (simp add: chunks_inv_def)
next
  case False
  let ?c = "\<lparr>ctext = strip (take n (drop pos doc)), start_char = pos, end_char = pos + n\<rparr>"
  from False n have ok: "chunk_ok mx doc ?c"
    by (simp add: chunk_ok_def)
  from inv ok have "\<forall>c\<in>set (chunks @ [?c]). chunk_ok mx doc c \<and> end_char c \<le> pos + n"
    by (auto simp: chunks_inv_def)
  moreover from inv have "sorted_wrt (\<lambda>a b. end_char a \<le> start_char b) (chunks @ [?c])"
    by (auto simp: chunks_inv_def sorted_wrt_append)
  moreover have "\<exists>c\<in>set (chunks @ [?c]). start_char c \<le> j \<and> j < end_char c"
    if "j < pos + n" "j < length doc" "\<not> isspace (doc ! j)" for j
  proof (cases "j < pos")
    case True
    with inv that have "\<exists>c\<in>set chunks. start_char c \<le> j \<and> j < end_char c"
      by (simp add: chunks_inv_def)
    then show ?thesis by auto
  next
    case False
    with that show ?thesis by simp
  qed
  ultimately show ?thesis using False by (simp add: chunks_inv_def)
qed

lemma chunks_inv_last:
  assumes inv: "chunks_inv mx doc chunks pos"
    and pos: "pos < length doc" "length (drop pos doc) \<le> mx"
  shows "chunks_inv mx doc
           (if strip (drop pos doc) \<noteq> [] then
              chunks @ [\<lparr>ctext = strip (drop pos doc), start_char = pos,
                         end_char = length doc\<rparr>]
            else chunks)
           (length doc)"
proof -
  from pos have n: "0 < length doc - pos" "length doc - pos \<le> mx"
    "pos + (length doc - pos) \<le> length doc"
    by simp_all
  have whole: "take (length doc - pos) (drop pos doc) = drop pos doc"
    by simp
  from pos have end_pos: "pos + (length doc - pos) = length doc"
    by simp
  from chunks_inv_step [OF inv n] show ?thesis
    unfolding whole end_pos .
qed

lemma chunk_loop_inv:
  "chunks_inv MAX_CHUNK_SIZE doc chunks pos \<Longrightarrow> pos \<le> length doc \<Longrightarrow>
     chunks_inv MAX_CHUNK_SIZE doc (chunk_loop doc chunks pos) (length doc)"
proof (induction doc chunks pos rule: chunk_loop.induct)
  case (1 doc chunks pos)
  show ?case
  proof (cases "pos < length doc")
    case False
    with "1.prems" have "pos = length doc" by simp
    with False "1.prems"(1) show ?thesis by (subst chunk_loop.simps) simp
  next
    case True
    show ?thesis
    proof (cases "length (drop pos doc) \<le> MAX_CHUNK_SIZE")
      case short: True
      from chunks_inv_last [OF "1.prems"(1) True short] True short show ?thesis
        by (simp add: chunk_loop.simps [of doc chunks pos] Let_def)
    next
      case long: False
      let ?n = "chunk_end_of (drop pos doc)"
      from chunk_end_of_bounds [of "drop pos doc"] long
      have n: "0 < ?n" "?n \<le> MAX_CHUNK_SIZE" "pos + ?n \<le> length doc"
        by auto
      from "1.IH" [OF True refl long refl refl chunks_inv_step [OF "1.prems"(1) n] n(3)]
      show ?thesis using True long
        by (simp add: chunk_loop.simps [of doc chunks pos] Let_def)
    qed
  qed
qed

lemma chunk_loop_mp3_inv:
  "chunks_inv MAX_CHUNK_SIZE_mp3 doc chunks pos \<Longrightarrow> pos \<le> length doc \<Longrightarrow>
     chunks_inv MAX_CHUNK_SIZE_mp3 doc (chunk_loop_mp3 doc chunks pos) (length doc)"
proof (induction doc chunks pos rule: chunk_loop_mp3.induct)
  case (1 doc chunks pos)
  show ?case
  proof (cases "pos < length doc")
    case False
    with "1.prems" have "pos = length doc" by simp
    with False "1.prems"(1) show ?thesis by (subst chunk_loop_mp3.simps) simp
  next
    case True
    show ?thesis
    proof (cases "length (drop pos doc) \<le> MAX_CHUNK_SIZE_mp3")
      case short: True
      from chunks_inv_last [OF "1.prems"(1) True short] True short show ?thesis
        by (simp add: chunk_loop_mp3.simps [of doc chunks pos] Let_def)
    next
      case long: False
      let ?n = "find_break_point (drop pos doc) MIN_CHUNK_SIZE_mp3 MAX_CHUNK_SIZE_mp3
                  (length chunks)"
      have "0 < MAX_CHUNK_SIZE_mp3" by (simp add: MAX_CHUNK_SIZE_mp3_def)
      from find_break_point_bounds [OF this, of "drop pos doc" MIN_CHUNK_SIZE_mp3
          "length chunks"] long
      have n: "0 < ?n" "?n \<le> MAX_CHUNK_SIZE_mp3" "pos + ?n \<le> length doc"
        by auto
      from "1.IH" [OF True refl long refl refl chunks_inv_step [OF "1.prems"(1) n] n(3)]
      show ?thesis using True long
        by (simp add: chunk_loop_mp3.simps [of doc chunks pos] Let_def)
    qed
  qed
qed

lemma chunk_text_inv: "chunks_inv MAX_CHUNK_SIZE doc (chunk_text doc) (length doc)"
  unfolding chunk_text_def by (rule chunk_loop_inv [OF chunks_inv_empty]) simp

lemma chunk_text_mp3_inv:
  "chunks_inv MAX_CHUNK_SIZE_mp3 doc (chunk_text_mp3 doc) (length doc)"
  unfolding chunk_text_mp3_def by (rule chunk_loop_mp3_inv [OF chunks_inv_empty]) simp

section \<open>The loops with an iteration budget\<close>

text \<open>
  The same two loops, counting iterations: \<open>fuel\<close> bounds the number of times the loop
  condition is tested, and \<open>None\<close> says the budget ran out before the loop returned.
\<close>

fun chunk_loop_fuel :: "nat \<Rightarrow> pystr \<Rightarrow> TextChunk list \<Rightarrow> nat \<Rightarrow> TextChunk list option" where
  "chunk_loop_fuel 0 doc chunks current_position = None"
| "chunk_loop_fuel (Suc fuel) doc chunks current_position =
     (if current_position < length doc then
        (let remaining_text = drop current_position doc in
         if length remaining_text \<le> MAX_CHUNK_SIZE then
           (let chunk = strip remaining_text in
            if chunk \<noteq> [] then
              Some (chunks @ [\<lparr>ctext = chunk, start_char = current_position,
                               end_char = length doc\<rparr>])
            else Some chunks)
         else
           (let chunk_end = chunk_end_of remaining_text;
                chunk = strip (take chunk_end remaining_text)
            in chunk_loop_fuel fuel doc
                 (if chunk \<noteq> [] then
                    chunks @ [\<lparr>ctext = chunk, start_char = current_position,
                               end_char = current_position + chunk_end\<rparr>]
                  else chunks)
                 (current_position + chunk_end)))
      else Some chunks)"

fun chunk_loop_mp3_fuel ::
  "nat \<Rightarrow> pystr \<Rightarrow> TextChunk list \<Rightarrow> nat \<Rightarrow> TextChunk list option" where
  "chunk_loop_mp3_fuel 0 doc chunks current_position = None"
| "chunk_loop_mp3_fuel (Suc fuel) doc chunks current_position =
     (if current_position < length doc then
        (let remaining_text = drop current_position doc in
         if length remaining_text \<le> MAX_CHUNK_SIZE_mp3 then
           (let chunk_content = strip remaining_text in
            if chunk_content \<noteq> [] then
              Some (chunks @ [\<lparr>ctext = chunk_content, start_char = current_position,
                               end_char = length doc\<rparr>])
            else Some chunks)
         else
           (let chunk_end = find_break_point remaining_text MIN_CHUNK_SIZE_mp3
                              MAX_CHUNK_SIZE_mp3 (length chunks);
                chunk_content = strip (take chunk_end remaining_text)
            in chunk_loop_mp3_fuel fuel doc
                 (if chunk_content \<noteq> [] then
                    chunks @ [\<lparr>ctext = chunk_content, start_char = current_position,
                               end_char = current_position + chunk_end\<rparr>]
                  else chunks)
                 (current_position + chunk_end)))
      else Some chunks)"

lemma chunk_loop_fuel_enough:
  "length doc - pos < fuel \<Longrightarrow>
     chunk_loop_fuel fuel doc chunks pos = Some (chunk_loop doc chunks pos)"
proof (induction fuel arbitrary: chunks pos)
  case 0
  then show ?case by simp
next
  case (Suc fuel)
  show ?case
  proof (cases "pos < length doc \<and> \<not> length (drop pos doc) \<le> MAX_CHUNK_SIZE")
    case False
    then show ?thesis
      by (subst chunk_loop.simps) (auto simp: Let_def)
  next
    case True
    let ?n = "chunk_end_of (drop pos doc)"
    from chunk_end_of_bounds [of "drop pos doc"] have "0 < ?n" by simp
    with True Suc.prems have "length doc - (pos + ?n) < fuel" by auto
    from Suc.IH [OF this] True show ?thesis
      by (subst chunk_loop.simps) (simp add: Let_def)
  qed
qed

lemma chunk_loop_mp3_fuel_enough:
  "length doc - pos < fuel \<Longrightarrow>
     chunk_loop_mp3_fuel fuel doc chunks pos = Some (chunk_loop_mp3 doc chunks pos)"
proof (induction fuel arbitrary: chunks pos)
  case 0
  then show ?case by simp
next
  case (Suc fuel)
  show ?case
  proof (cases "pos < length doc \<and> \<not> length (drop pos doc) \<le> MAX_CHUNK_SIZE_mp3")
    case False
    then show ?thesis
      by (subst chunk_loop_mp3.simps) (auto simp: Let_def)
  next
    case True
    let ?n = "find_break_point (drop pos doc) MIN_CHUNK_SIZE_mp3 MAX_CHUNK_SIZE_mp3
                (length chunks)"
    have "0 < MAX_CHUNK_SIZE_mp3" by (simp add: MAX_CHUNK_SIZE_mp3_def)
    from find_break_point_bounds [OF this, of "drop pos doc" MIN_CHUNK_SIZE_mp3
        "length chunks"]
    have "0 < ?n" by simp
    with True Suc.prems have "length doc - (pos + ?n) < fuel" by auto
    from Suc.IH [OF this] True show ?thesis
      by (subst chunk_loop_mp3.simps) (simp add: Let_def)
  qed
qed

section \<open>The chunkers on concrete documents\<close>

text \<open>
  Documents longer than \<open>MAX_CHUNK_SIZE\<close> are evaluated through facts about the
  string primitives on text without terminators, spaces or newlines.
\<close>

lemma finditer_from_no_terminator:
  "\<forall>c\<in>set s. \<not> is_terminator c \<Longrightarrow> finditer_from off s = []"
proof (induction s arbitrary: off)
  case Nil
  show ?case by (simp add: finditer_from.simps [of off "[]"])
next
  case (Cons x xs)
  then have "match_here (x # xs) = None" by simp
  with Cons show ?case by (simp add: finditer_from.simps [of off "x # xs"])
qed

lemma finditer_no_terminator: "\<forall>c\<in>set s. \<not> is_terminator c \<Longrightarrow> finditer s = []"
  by (simp add: finditer_def finditer_from_no_terminator)

lemma rfind_absent: "c \<notin> set s \<Longrightarrow> rfind s c = - 1"
  by (induction s) (auto simp: Let_def)

lemma rfind_replicate: "rfind (replicate n c) c = int n - 1"
  by (induction n) (auto simp: Let_def)

lemma find_offset_absent: "sub \<noteq> [] \<Longrightarrow> hd sub \<notin> set s \<Longrightarrow> find_offset sub s = None"
proof (induction s)
  case Nil
  then show ?case by simp
next
  case (Cons x xs)
  from Cons.prems have "take (length sub) (x # xs) \<noteq> sub"
    by (cases sub) auto
  with Cons show ?case by simp
qed

lemma find_str_absent:
  assumes "sub \<noteq> []" "hd sub \<notin> set s"
  shows "find_str s sub start = - 1"
proof -
  from assms(2) have "hd sub \<notin> set (drop start s)"
    by (auto dest: in_set_dropD)
  from find_offset_absent [OF assms(1) this] show ?thesis
    by (simp add: find_str_def)
qed

lemma newline_scan_absent:
  "sub \<noteq> [] \<Longrightarrow> hd sub \<notin> set s \<Longrightarrow> newline_scan s sub mn mx ss = None"
  by (simp add: newline_scan.simps [of s sub mn mx ss] find_str_absent)

lemma strip_unchanged:
  assumes "s \<noteq> []" "\<not> isspace (hd s)" "\<not> isspace (last s)"
  shows "strip s = s"
proof -
  from assms have "dropWhile isspace s = s"
    by (cases s) auto
  moreover from assms have "rev s \<noteq> []" "\<not> isspace (hd (rev s))"
    by (simp_all add: hd_rev)
  then have "dropWhile isspace (rev s) = rev s"
    by (cases "rev s") auto
  ultimately show ?thesis by (simp add: strip_def)
qed

lemma chunk_end_of_plain:
  assumes "\<forall>c\<in>set (take MAX_CHUNK_SIZE r). \<not> is_terminator c \<and> c \<noteq> 32"
  shows "chunk_end_of r = MAX_CHUNK_SIZE"
proof -
  from assms have "finditer (take MAX_CHUNK_SIZE r) = []"
    by (simp add: finditer_no_terminator)
  moreover from assms have "rfind (take MAX_CHUNK_SIZE r) 32 = - 1"
    by (intro rfind_absent) auto
  ultimately show ?thesis by (simp add: chunk_end_of_def)
qed

lemma find_break_point_plain:
  assumes "\<forall>c\<in>set (take mx r). \<not> is_terminator c \<and> c \<noteq> 32 \<and> c \<noteq> 10"
  shows "find_break_point r mn mx k = mx"
proof -
  from assms have "finditer (take mx r) = []"
    by (simp add: finditer_no_terminator)
  moreover from assms have "rfind (take mx r) 32 = - 1"
    by (intro rfind_absent) auto
  moreover from assms have "newline_scan (take mx r) [10, 10] mn mx mn = None"
    "newline_scan (take mx r) [10] mn mx mn = None"
    by (auto intro!: newline_scan_absent)
  ultimately show ?thesis by (simp add: find_break_point_def)
qed

lemma doc2_chunks: "chunk_text (replicate 1901 97) =
  [\<lparr>ctext = replicate 1900 97, start_char = 0, end_char = 1900\<rparr>,
   \<lparr>ctext = [97], start_char = 1900, end_char = 1901\<rparr>]"
proof -
  have ce: "chunk_end_of (replicate 1901 97) = 1900"
    using chunk_end_of_plain [of "replicate 1901 97"]
    by (simp add: MAX_CHUNK_SIZE_def is_terminator_def)
  have s1: "strip (replicate 1900 97) = replicate 1900 97"
    by (rule strip_unchanged) (simp_all add: isspace_def)
  have s2: "strip [97] = [97]"
    by (simp add: strip_def isspace_def)
  show ?thesis
    unfolding chunk_text_def
    apply (subst chunk_loop.simps)
    apply (simp add: ce s1 MAX_CHUNK_SIZE_def)
    apply (subst chunk_loop.simps)
    apply (simp add: s2 MAX_CHUNK_SIZE_def)
    done
qed

lemma strip_a: "strip [97] = [97]"
  by (simp add: strip_def isspace_def)

lemma strip_spaces: "strip (replicate n 32) = []"
  by (simp add: strip_Nil_iff isspace_def)

lemma doc2_chunks_mp3: "chunk_text_mp3 (replicate 1901 97) =
  [\<lparr>ctext = replicate 1900 97, start_char = 0, end_char = 1900\<rparr>,
   \<lparr>ctext = [97], start_char = 1900, end_char = 1901\<rparr>]"
proof -
  have ce: "find_break_point (replicate 1901 97) MIN_CHUNK_SIZE_mp3 1900 k = 1900" for k
    using find_break_point_plain [of 1900 "replicate 1901 97"]
    by (simp add: is_terminator_def)
  have s1: "strip (replicate 1900 97) = replicate 1900 97"
    by (rule strip_unchanged) (simp_all add: isspace_def)
  show ?thesis
    unfolding chunk_text_mp3_def
    apply (subst chunk_loop_mp3.simps)
    apply (simp add: ce s1 MAX_CHUNK_SIZE_mp3_def)
    apply (subst chunk_loop_mp3.simps)
    apply (simp add: strip_a MAX_CHUNK_SIZE_mp3_def)
    done
qed

lemma doc1_chunks: "chunk_text (replicate 1900 32 @ [97]) =
  [\<lparr>ctext = [97], start_char = 1900, end_char = 1901\<rparr>]"
proof -
  have "finditer (replicate 1900 32) = []"
    by (rule finditer_no_terminator) (simp add: is_terminator_def)
  moreover have "rfind (replicate 1900 32) 32 = 1899"
    by (simp add: rfind_replicate)
  ultimately have ce: "chunk_end_of (replicate 1900 32 @ [97]) = 1900"
    by (simp add: chunk_end_of_def MAX_CHUNK_SIZE_def)
  show ?thesis
    unfolding chunk_text_def
    apply (subst chunk_loop.simps)
    apply (simp add: ce strip_spaces MAX_CHUNK_SIZE_def)
    apply (subst chunk_loop.simps)
    apply (simp add: strip_a MAX_CHUNK_SIZE_def)
    done
qed

lemma doc1_chunks_mp3: "chunk_text_mp3 (replicate 1900 32 @ [97]) =
  [\<lparr>ctext = [97], start_char = 1900, end_char = 1901\<rparr>]"
proof -
  have "finditer (replicate 1900 32) = []"
    by (rule finditer_no_terminator) (simp add: is_terminator_def)
  moreover have "rfind (replicate 1900 32) 32 = 1899"
    by (simp add: rfind_replicate)
  moreover have "newline_scan (replicate 1900 32) [10, 10] mn mx mn = None"
    "newline_scan (replicate 1900 32) [10] mn mx mn = None" for mn mx
    by (simp_all add: newline_scan_absent)
  ultimately have ce: "find_break_point (replicate 1900 32 @ [97]) MIN_CHUNK_SIZE_mp3
      1900 k = 1900" for k
    by (simp add: find_break_point_def)
  show ?thesis
    unfolding chunk_text_mp3_def
    apply (subst chunk_loop_mp3.simps)
    apply (simp add: ce strip_spaces MAX_CHUNK_SIZE_mp3_def)
    apply (subst chunk_loop_mp3.simps)
    apply (simp add: strip_a MAX_CHUNK_SIZE_mp3_def)
    done
qed

lemma space_chunks: "chunk_text [32] = []" "chunk_text_mp3 [32] = []"
  unfolding chunk_text_def chunk_text_mp3_def
  by (subst chunk_loop.simps chunk_loop_mp3.simps,
      simp add: strip_def isspace_def MAX_CHUNK_SIZE_def MAX_CHUNK_SIZE_mp3_def)+

section \<open>Properties of the chunkers\<close>

text \<open>
  The ranges of a chunk list over a document: each range is non-empty and inside the
  document, each chunk starts at or after the end of the chunk before it, and every
  character of the document outside all ranges is whitespace.
\<close>

definition ascending_cover :: "pystr \<Rightarrow> TextChunk list \<Rightarrow> bool" where
  "ascending_cover doc cs \<longleftrightarrow>
     (\<forall>c\<in>set cs. start_char c < end_char c \<and> end_char c \<le> length doc) \<and>
     (\<forall>i. Suc i < length cs \<longrightarrow> end_char (cs ! i) \<le> start_char (cs ! Suc i)) \<and>
     (\<forall>j<length doc. \<not> isspace (doc ! j) \<longrightarrow>
        (\<exists>c\<in>set cs. start_char c \<le> j \<and> j < end_char c))"

lemma chunks_inv_cover:
  assumes "chunks_inv mx doc cs (length doc)"
  shows "ascending_cover doc cs"
proof -
  from assms have sorted: "sorted_wrt (\<lambda>a b. end_char a \<le> start_char b) cs"
    by (simp add: chunks_inv_def)
  have "end_char (cs ! i) \<le> start_char (cs ! Suc i)" if "Suc i < length cs" for i
    using sorted that by (simp add: sorted_wrt_iff_nth_less)
  moreover from assms
  have "\<forall>c\<in>set cs. start_char c < end_char c \<and> end_char c \<le> length doc"
    by (simp add: chunks_inv_def chunk_ok_def)
  moreover from assms
  have "\<forall>j<length doc. \<not> isspace (doc ! j) \<longrightarrow>
      (\<exists>c\<in>set cs. start_char c \<le> j \<and> j < end_char c)"
    by (simp add: chunks_inv_def)
  ultimately show ?thesis by (simp add: ascending_cover_def)
qed

text \<open>
  C1. Every chunk of either chunker spans at most \<open>MAX_CHUNK_SIZE\<close> characters of the
  document (\<open>end_char - start_char\<close>, the length before trimming), and its text is the
  trimmed slice of that range and is not empty.
\<close>

theorem chunk_raw_length_bounded:
  "(\<forall>c\<in>set (chunk_text doc).
      start_char c < end_char c \<and> end_char c - start_char c \<le> MAX_CHUNK_SIZE \<and>
      ctext c = strip (take (end_char c - start_char c) (drop (start_char c) doc)) \<and>
      ctext c \<noteq> []) \<and>
   (\<forall>c\<in>set (chunk_text_mp3 doc).
      start_char c < end_char c \<and> end_char c - start_char c \<le> MAX_CHUNK_SIZE_mp3 \<and>
      ctext c = strip (take (end_char c - start_char c) (drop (start_char c) doc)) \<and>
      ctext c \<noteq> [])"
proof -
  have ok: "start_char c < end_char c \<and> end_char c - start_char c \<le> mx \<and>
      ctext c = strip (take (end_char c - start_char c) (drop (start_char c) doc)) \<and>
      ctext c \<noteq> []"
    if "chunks_inv mx doc cs (length doc)" "c \<in> set cs" for mx cs c
    using that unfolding chunks_inv_def chunk_ok_def by blast
  from ok [OF chunk_text_inv] ok [OF chunk_text_mp3_inv] show ?thesis
    by blast
qed

theorem chunk_raw_length_bounded_witness:
  "chunk_text (replicate 1901 97) =
     [\<lparr>ctext = replicate 1900 97, start_char = 0, end_char = 1900\<rparr>,
      \<lparr>ctext = [97], start_char = 1900, end_char = 1901\<rparr>] \<and>
   (1900 :: nat) - 0 \<le> MAX_CHUNK_SIZE \<and> (1901 :: nat) - 1900 \<le> MAX_CHUNK_SIZE \<and>
   replicate 1900 (97 :: nat) = strip (take (1900 - 0) (drop 0 (replicate 1901 97))) \<and>
   replicate 1900 (97 :: nat) \<noteq> [] \<and>
   chunk_text_mp3 (replicate 1901 97) =
     [\<lparr>ctext = replicate 1900 97, start_char = 0, end_char = 1900\<rparr>,
      \<lparr>ctext = [97], start_char = 1900, end_char = 1901\<rparr>] \<and>
   (1900 :: nat) - 0 \<le> MAX_CHUNK_SIZE_mp3 \<and> (1901 :: nat) - 1900 \<le> MAX_CHUNK_SIZE_mp3"
  using chunk_raw_length_bounded [of "replicate 1901 97"]
  by (simp add: doc2_chunks doc2_chunks_mp3)

text \<open>
  C4, as stated, fails: a cut whose slice is all whitespace is skipped, so its range is
  in no chunk. On 1900 spaces followed by \<open>a\<close> the only chunk starts at 1900, not at 0.
\<close>

theorem chunk_ranges_contiguous_counterexample:
  "chunk_text (replicate 1900 32 @ [97]) =
     [\<lparr>ctext = [97], start_char = 1900, end_char = 1901\<rparr>] \<and>
   start_char (hd (chunk_text (replicate 1900 32 @ [97]))) \<noteq> 0 \<and>
   chunk_text_mp3 (replicate 1900 32 @ [97]) =
     [\<lparr>ctext = [97], start_char = 1900, end_char = 1901\<rparr>] \<and>
   start_char (hd (chunk_text_mp3 (replicate 1900 32 @ [97]))) \<noteq> 0"
  by (simp add: doc1_chunks doc1_chunks_mp3)

text \<open>
  C4, amended. The chunks of either chunker are in ascending order without overlap:
  each range is non-empty and inside the document, and each chunk starts at or after the
  end of the previous one. The ranges need not be contiguous, but every character of the
  document that lies in no chunk's range is whitespace.
\<close>

theorem chunk_ranges_ascending_cover:
  "ascending_cover doc (chunk_text doc) \<and> ascending_cover doc (chunk_text_mp3 doc)"
  using chunk_text_inv [of doc] chunk_text_mp3_inv [of doc]
  by (simp add: chunks_inv_cover)

theorem chunk_ranges_ascending_cover_witness:
  "ascending_cover (replicate 1900 32 @ [97])
     [\<lparr>ctext = [97], start_char = 1900, end_char = 1901\<rparr>] \<and>
   ascending_cover (replicate 1901 97)
     [\<lparr>ctext = replicate 1900 97, start_char = 0, end_char = 1900\<rparr>,
      \<lparr>ctext = [97], start_char = 1900, end_char = 1901\<rparr>]"
  using chunk_ranges_ascending_cover [of "replicate 1900 32 @ [97]"]
    chunk_ranges_ascending_cover [of "replicate 1901 97"]
  by (simp add: doc1_chunks doc2_chunks)

text \<open>
  C6, as stated, fails: the document of one space is not empty and yields no chunk.
\<close>

theorem chunk_count_counterexample:
  "[32 :: nat] \<noteq> [] \<and> chunk_text [32] = [] \<and> chunk_text_mp3 [32] = []"
  by (simp add: space_chunks)

text \<open>
  C6, amended. For every document with at least one character that is not whitespace,
  either chunker returns at least one chunk.
\<close>

theorem chunk_count_positive:
  assumes "\<exists>c\<in>set doc. \<not> isspace c"
  shows "chunk_text doc \<noteq> [] \<and> chunk_text_mp3 doc \<noteq> []"
proof -
  from assms obtain j where j: "j < length doc" "\<not> isspace (doc ! j)"
    by (auto simp: in_set_conv_nth)
  from chunk_text_inv [of doc] j have "\<exists>c. c \<in> set (chunk_text doc)"
    by (auto simp: chunks_inv_def)
  moreover from chunk_text_mp3_inv [of doc] j have "\<exists>c. c \<in> set (chunk_text_mp3 doc)"
    by (auto simp: chunks_inv_def)
  ultimately show ?thesis by auto
qed

theorem chunk_count_positive_witness:
  "\<not> isspace 97 \<and> chunk_text [97] \<noteq> [] \<and> chunk_text_mp3 [97] \<noteq> []"
  using chunk_count_positive [of "[97]"] by (simp add: isspace_def)

text \<open>
  C10. The cut offset is at least 1 in both chunkers, whatever the remaining text, so
  the cursor moves forward in every iteration; and the loop returns within
  \<open>len(text) + 1\<close> tests of its condition, with the chunks \<open>chunk_text\<close> returns.
\<close>

theorem chunk_text_terminates:
  "0 < chunk_end_of r \<and>
   0 < find_break_point r MIN_CHUNK_SIZE_mp3 MAX_CHUNK_SIZE_mp3 k \<and>
   (length doc < fuel \<longrightarrow>
      chunk_loop_fuel fuel doc [] 0 = Some (chunk_text doc) \<and>
      chunk_loop_mp3_fuel fuel doc [] 0 = Some (chunk_text_mp3 doc))"
proof -
  have "0 < MAX_CHUNK_SIZE_mp3" by (simp add: MAX_CHUNK_SIZE_mp3_def)
  from find_break_point_bounds [OF this, of r MIN_CHUNK_SIZE_mp3 k]
    chunk_end_of_bounds [of r]
  show ?thesis
    by (simp add: chunk_loop_fuel_enough chunk_loop_mp3_fuel_enough
        chunk_text_def chunk_text_mp3_def)
qed

theorem chunk_text_terminates_witness:
  "length (replicate 1901 (97 :: nat)) < 1902 \<and>
   0 < chunk_end_of (replicate 1901 97) \<and>
   0 < find_break_point (replicate 1901 97) MIN_CHUNK_SIZE_mp3 MAX_CHUNK_SIZE_mp3 0 \<and>
   chunk_loop_fuel 1902 (replicate 1901 97) [] 0 = Some (chunk_text (replicate 1901 97)) \<and>
   chunk_loop_mp3_fuel 1902 (replicate 1901 97) [] 0 =
     Some (chunk_text_mp3 (replicate 1901 97))"
  using chunk_text_terminates [of "replicate 1901 97" 0 "replicate 1901 97" 1902]
  by simp

section \<open>The sentence-first policy\<close>

text \<open>
  The policy in the specification's words, to compare with \<open>chunk_end_of\<close>.
  \<open>last_index w c\<close> is the position of the last \<open>c\<close> in \<open>w\<close>: the first index that
  holds \<open>c\<close>, looking from the right.
\<close>

definition last_index :: "pystr \<Rightarrow> nat \<Rightarrow> nat option" where
  "last_index w c = List.find (\<lambda>i. w ! i = c) (rev [0..<length w])"

text \<open>
  As the specification states it: the end of the first match whose end is at least
  \<open>min_offset\<close>; else the end of the last match; else one past the last space; else
  \<open>max_offset\<close>.
\<close>

definition sentence_first_cut :: "pystr \<Rightarrow> nat \<Rightarrow> nat \<Rightarrow> nat" where
  "sentence_first_cut s min_offset max_offset =
     (let window = take max_offset s; ms = finditer window in
      case List.find (\<lambda>m. min_offset \<le> snd m) ms of
        Some m \<Rightarrow> snd m
      | None \<Rightarrow>
          if ms \<noteq> [] then snd (last ms)
          else (case last_index window 32 of
                  Some i \<Rightarrow> Suc i
                | None \<Rightarrow> max_offset))"

text \<open>
  The amended policy: a last space at index 0 counts as no space.
\<close>

definition sentence_first_cut_amended :: "pystr \<Rightarrow> nat \<Rightarrow> nat \<Rightarrow> nat" where
  "sentence_first_cut_amended s min_offset max_offset =
     (let window = take max_offset s; ms = finditer window in
      case List.find (\<lambda>m. min_offset \<le> snd m) ms of
        Some m \<Rightarrow> snd m
      | None \<Rightarrow>
          if ms \<noteq> [] then snd (last ms)
          else (case last_index window 32 of
                  Some i \<Rightarrow> if 0 < i then Suc i else max_offset
                | None \<Rightarrow> max_offset))"

lemma rfind_snoc: "rfind (xs @ [x]) c = (if x = c then int (length xs) else rfind xs c)"
  by (induction xs) (auto simp: Let_def)

lemma last_index_snoc:
  "last_index (xs @ [x]) c = (if x = c then Some (length xs) else last_index xs c)"
proof -
  have "List.find (\<lambda>i. (xs @ [x]) ! i = c) (rev [0..<length xs]) =
      List.find (\<lambda>i. xs ! i = c) (rev [0..<length xs])"
    by (rule find_cong) (auto simp: nth_append)
  then show ?thesis by (simp add: last_index_def)
qed

lemma rfind_last_index:
  "rfind w c = (case last_index w c of None \<Rightarrow> - 1 | Some i \<Rightarrow> int i)"
proof (induction w rule: rev_induct)
  case Nil
  show ?case by (simp add: last_index_def)
next
  case (snoc x xs)
  then show ?case by (simp add: rfind_snoc last_index_snoc)
qed

lemma find_filter_hd:
  "List.find P xs = (if filter P xs = [] then None else Some (hd (filter P xs)))"
  by (induction xs) auto

lemma chunk_end_of_policy:
  "chunk_end_of r = sentence_first_cut_amended r MIN_CHUNK_SIZE MAX_CHUNK_SIZE"
proof -
  let ?w = "take MAX_CHUNK_SIZE r"
  have suc: "nat (int i + 1) = Suc i" for i
    by arith
  have "(let space_index = rfind ?w 32
         in if 0 < space_index then nat (space_index + 1) else MAX_CHUNK_SIZE) =
        (case last_index ?w 32 of
           Some i \<Rightarrow> if 0 < i then Suc i else MAX_CHUNK_SIZE
         | None \<Rightarrow> MAX_CHUNK_SIZE)"
    by (simp add: rfind_last_index [of ?w 32] Let_def suc split: option.split)
  then show ?thesis
    by (simp add: chunk_end_of_def sentence_first_cut_amended_def Let_def
        find_filter_hd [of _ "finditer ?w"])
qed

lemma finditer_from_skip:
  "\<forall>c\<in>set p. \<not> is_terminator c \<Longrightarrow>
     finditer_from off (p @ s) = finditer_from (off + length p) s"
proof (induction p arbitrary: off)
  case Nil
  show ?case by simp
next
  case (Cons x p)
  then have m: "match_here (x # p @ s) = None" by simp
  have "finditer_from off (x # p @ s) = finditer_from (Suc off) (p @ s)"
    by (subst finditer_from.simps) (simp add: m del: match_here.simps)
  with Cons.prems Cons.IH [of "Suc off"] show ?case by simp
qed

lemma rfind_last_occurrence: "c \<notin> set ys \<Longrightarrow> rfind (xs @ c # ys) c = int (length xs)"
  by (induction xs) (auto simp: Let_def rfind_absent)

text \<open>A space first, then 1900 letters: no match, and the only space is at index 0.\<close>

lemma space_first_cut: "chunk_end_of (32 # replicate 1900 97) = 1900"
proof -
  have w: "take MAX_CHUNK_SIZE (32 # replicate 1900 97) = 32 # replicate 1899 (97 :: nat)"
    by (simp add: MAX_CHUNK_SIZE_def)
  have "finditer (32 # replicate 1899 97) = []"
    by (rule finditer_no_terminator) (simp add: is_terminator_def)
  moreover have "rfind (32 # replicate 1899 97) 32 = 0"
    by (simp add: rfind_absent Let_def)
  ultimately show ?thesis
    unfolding chunk_end_of_def w by (simp add: MAX_CHUNK_SIZE_def)
qed

lemma space_first_stated:
  "sentence_first_cut (32 # replicate 1900 97) MIN_CHUNK_SIZE MAX_CHUNK_SIZE = 1"
proof -
  have w: "take MAX_CHUNK_SIZE (32 # replicate 1900 97) = 32 # replicate 1899 (97 :: nat)"
    by (simp add: MAX_CHUNK_SIZE_def)
  have "finditer (32 # replicate 1899 97) = []"
    by (rule finditer_no_terminator) (simp add: is_terminator_def)
  moreover have "rfind (32 # replicate 1899 97) 32 = 0"
    by (simp add: rfind_absent Let_def)
  then have "last_index (32 # replicate 1899 97) 32 = Some 0"
    by (simp add: rfind_last_index split: option.splits)
  ultimately show ?thesis
    unfolding sentence_first_cut_def w by simp
qed

text \<open>999 letters, a full stop, a space, 1000 letters: the first match ends at 1001.\<close>

lemma sentence_cut_first_match:
  "chunk_end_of (replicate 999 97 @ [46, 32] @ replicate 1000 97) = 1001"
proof -
  have w: "take MAX_CHUNK_SIZE (replicate 999 97 @ [46, 32] @ replicate 1000 97) =
      replicate 999 97 @ 46 # 32 # replicate 899 (97 :: nat)"
    by (simp add: MAX_CHUNK_SIZE_def)
  have tw: "takeWhile isspace (replicate 899 97) = []"
    by (simp add: isspace_def takeWhile_eq_Nil_iff)
  have m: "match_here (46 # 32 # replicate 899 97) = Some 2"
    by (simp add: is_terminator_def alt_ws_def is_quote_def ws_plus_def tw isspace_def)
  have rest: "finditer_from 1001 (replicate 899 97) = []"
    by (rule finditer_from_no_terminator) (simp add: is_terminator_def)
  have "finditer_from 999 (46 # 32 # replicate 899 97) = [(999, 1001)]"
    by (subst finditer_from.simps) (simp add: m rest del: match_here.simps)
  then have "finditer (replicate 999 97 @ 46 # 32 # replicate 899 97) = [(999, 1001)]"
    unfolding finditer_def
    using finditer_from_skip [of "replicate 999 97" 0 "46 # 32 # replicate 899 97"]
    by (simp add: is_terminator_def)
  then show ?thesis
    unfolding chunk_end_of_def w by (simp add: MIN_CHUNK_SIZE_def)
qed

text \<open>1000 letters, a space, 1000 letters: no match, the last space is at 1000.\<close>

lemma sentence_cut_last_space:
  "chunk_end_of (replicate 1000 97 @ [32] @ replicate 1000 97) = 1001"
proof -
  have w: "take MAX_CHUNK_SIZE (replicate 1000 97 @ [32] @ replicate 1000 97) =
      replicate 1000 97 @ 32 # replicate 899 (97 :: nat)"
    by (simp add: MAX_CHUNK_SIZE_def)
  have "finditer (replicate 1000 97 @ 32 # replicate 899 97) = []"
    by (rule finditer_no_terminator) (auto simp: is_terminator_def)
  moreover have "rfind (replicate 1000 97 @ 32 # replicate 899 97) 32 = 1000"
    by (simp add: rfind_last_occurrence)
  ultimately show ?thesis
    unfolding chunk_end_of_def w by simp
qed

text \<open>
  C5, as stated, fails where the window's only space is its first character: the code
  tests \<open>space_index > 0\<close>, so it cuts at \<open>MAX_CHUNK_SIZE\<close>, not one past that space.
\<close>

theorem sentence_first_counterexample:
  "chunk_end_of (32 # replicate 1900 97) = 1900 \<and>
   sentence_first_cut (32 # replicate 1900 97) MIN_CHUNK_SIZE MAX_CHUNK_SIZE = 1"
  by (simp add: space_first_cut space_first_stated)

text \<open>
  C5, amended. The cut offset of the sentence-first chunker is the end of the first
  sentence-terminator match whose end is at least \<open>MIN_CHUNK_SIZE\<close>; if no match
  qualifies, the end of the last match in the window; if there is no match, one past the
  last space of the window when that space is not the window's first character; and
  otherwise (no space, or the last space at index 0) exactly \<open>MAX_CHUNK_SIZE\<close>.
\<close>

theorem sentence_first_policy:
  "chunk_end_of r = sentence_first_cut_amended r MIN_CHUNK_SIZE MAX_CHUNK_SIZE"
  by (rule chunk_end_of_policy)

theorem sentence_first_policy_witness:
  "sentence_first_cut_amended (replicate 999 97 @ [46, 32] @ replicate 1000 97)
      MIN_CHUNK_SIZE MAX_CHUNK_SIZE = 1001 \<and>
   sentence_first_cut_amended (replicate 1000 97 @ [32] @ replicate 1000 97)
      MIN_CHUNK_SIZE MAX_CHUNK_SIZE = 1001 \<and>
   sentence_first_cut_amended (32 # replicate 1900 97)
      MIN_CHUNK_SIZE MAX_CHUNK_SIZE = 1900"
  by (simp only: sentence_first_policy [symmetric] sentence_cut_first_match
      sentence_cut_last_space space_first_cut simp_thms)

section \<open>Reassembly and the splice report (example_tts_long_input.py)\<close>

text \<open>
  Python \<open>bytes\<close> are lists of 8-bit characters. The exceptions the modelled code can
  raise are values: \<open>failure\<close> is what a \<open>requests\<close> call reports (an HTTP status
  through \<open>raise_for_status\<close>, or an exception without a response).
\<close>

type_synonym bytes = "char list"

datatype failure = HTTPError nat | Timeout | ConnectionError

datatype py_error =
  IndexError | ZeroDivisionError | RuntimeError | ValueError | RequestException failure

text \<open>
  Durations and timestamps are Python floats. The float primitives the code uses are
  parameters, so that what is proved holds for IEEE double arithmetic as for exact
  arithmetic: \<open>truediv a b\<close> is \<open>a / b\<close> on two ints, \<open>fadd\<close> is \<open>+\<close> on floats, \<open>fzero\<close> is
  the literal \<open>0.0\<close>, and \<open>format_time\<close> is the function of that name (lines 199 to 203).
\<close>

record 'f float_ops =
  truediv :: "int \<Rightarrow> int \<Rightarrow> 'f"
  fadd :: "'f \<Rightarrow> 'f \<Rightarrow> 'f"
  fzero :: "'f"
  format_time :: "'f \<Rightarrow> string"

record 'f SplicePoint =
  splice_index :: nat
  timestamp :: "'f"
  formatted_time :: string
  chunk_start_char :: nat
  chunk_end_char :: nat
  text_preview :: pystr

definition SAMPLE_RATE :: nat where
  "SAMPLE_RATE = 48000"

definition BITS_PER_SAMPLE :: nat where
  "BITS_PER_SAMPLE = 16"

definition CHANNELS :: nat where
  "CHANNELS = 1"

definition extract_raw_audio :: "bytes \<Rightarrow> bytes" where
  "extract_raw_audio audio_data =
     (if 44 < length audio_data \<and> take 4 audio_data = ''RIFF'' then drop 44 audio_data
      else audio_data)"

definition bytes_per_second :: nat where
  "bytes_per_second = SAMPLE_RATE * (BITS_PER_SAMPLE div 8) * CHANNELS"

text \<open>\<open>calculate_duration\<close>; Python's \<open>/\<close> raises \<open>ZeroDivisionError\<close> on a zero divisor.\<close>

definition calculate_duration :: "'f float_ops \<Rightarrow> bytes \<Rightarrow> py_error + 'f" where
  "calculate_duration F raw_audio =
     (if bytes_per_second = 0 then Inl ZeroDivisionError
      else Inr (truediv F (int (length raw_audio)) (int bytes_per_second)))"

text \<open>
  The \<open>for\<close> loop of \<open>combine_audio_buffers\<close> over \<open>enumerate(audio_buffers)\<close>; its state
  is \<open>(splice_points, current_time, raw_buffers)\<close>. \<open>chunks[index]\<close> raises \<open>IndexError\<close>
  when \<open>chunks\<close> is too short.
\<close>

fun combine_loop ::
  "'f float_ops \<Rightarrow> TextChunk list \<Rightarrow> nat \<Rightarrow> bytes list \<Rightarrow>
   'f SplicePoint list \<times> 'f \<times> bytes list \<Rightarrow>
   py_error + 'f SplicePoint list \<times> 'f \<times> bytes list" where
  "combine_loop F chunks index [] state = Inr state"
| "combine_loop F chunks index (buffer # rest) (splice_points, current_time, raw_buffers) =
     (let raw_audio = extract_raw_audio buffer in
      case calculate_duration F raw_audio of
        Inl e \<Rightarrow> Inl e
      | Inr duration \<Rightarrow>
          if 0 < index then
            (if index < length chunks then
               combine_loop F chunks (Suc index) rest
                 (splice_points @
                    [\<lparr>splice_index = index, timestamp = current_time,
                      formatted_time = format_time F current_time,
                      chunk_start_char = start_char (chunks ! index),
                      chunk_end_char = end_char (chunks ! index),
                      text_preview = take 50 (ctext (chunks ! index)) @ [46, 46, 46]\<rparr>],
                  fadd F current_time duration, raw_buffers @ [raw_audio])
             else Inl IndexError)
          else
            combine_loop F chunks (Suc index) rest
              (splice_points, fadd F current_time duration, raw_buffers @ [raw_audio]))"

definition combine_audio_buffers ::
  "'f float_ops \<Rightarrow> bytes list \<Rightarrow> TextChunk list \<Rightarrow>
   py_error + bytes \<times> 'f SplicePoint list \<times> 'f" where
  "combine_audio_buffers F audio_buffers chunks =
     (case combine_loop F chunks 0 audio_buffers ([], fzero F, []) of
        Inl e \<Rightarrow> Inl e
      | Inr (splice_points, current_time, raw_buffers) \<Rightarrow>
          Inr (concat raw_buffers, splice_points, current_time))"

text \<open>
  The computed duration of one buffer, and Python's left-to-right sum of a list of
  durations, starting from \<open>0.0\<close>.
\<close>

definition duration_of :: "'f float_ops \<Rightarrow> bytes \<Rightarrow> 'f" where
  "duration_of F buffer =
     truediv F (int (length (extract_raw_audio buffer))) (int bytes_per_second)"

definition fsum_from :: "'f float_ops \<Rightarrow> 'f \<Rightarrow> 'f list \<Rightarrow> 'f" where
  "fsum_from F t ds = foldl (fadd F) t ds"

definition fsum :: "'f float_ops \<Rightarrow> 'f list \<Rightarrow> 'f" where
  "fsum F ds = fsum_from F (fzero F) ds"

text \<open>The splice point the loop emits at \<open>index\<close> when the clock is at \<open>t\<close>.\<close>

definition splice_at :: "'f float_ops \<Rightarrow> TextChunk list \<Rightarrow> 'f \<Rightarrow> nat \<Rightarrow> 'f SplicePoint" where
  "splice_at F chunks t index =
     \<lparr>splice_index = index, timestamp = t, formatted_time = format_time F t,
      chunk_start_char = start_char (chunks ! index),
      chunk_end_char = end_char (chunks ! index),
      text_preview = take 50 (ctext (chunks ! index)) @ [46, 46, 46]\<rparr>"

lemma bytes_per_second_value: "bytes_per_second = 96000"
  by (simp add: bytes_per_second_def SAMPLE_RATE_def BITS_PER_SAMPLE_def CHANNELS_def)

lemma calculate_duration_value:
  "calculate_duration F (extract_raw_audio buffer) = Inr (duration_of F buffer)"
  by (simp add: calculate_duration_def duration_of_def bytes_per_second_value)

lemma fsum_from_tail:
  assumes "Suc k \<le> i"
  shows "fsum_from F t (map (duration_of F) (take (i - k) (b # rest))) =
     fsum_from F (fadd F t (duration_of F b)) (map (duration_of F) (take (i - Suc k) rest))"
proof -
  from assms obtain d where "i - k = Suc d" "i - Suc k = d"
    by (cases "i - k") auto
  then show ?thesis by (simp add: fsum_from_def)
qed

lemma combine_loop_value:
  "0 < k \<Longrightarrow> k + length rest \<le> length chunks \<Longrightarrow>
   combine_loop F chunks k rest (sps, t, raws) =
     Inr (sps @ map (\<lambda>i. splice_at F chunks
                       (fsum_from F t (map (duration_of F) (take (i - k) rest))) i)
                  [k..<k + length rest],
          fsum_from F t (map (duration_of F) rest),
          raws @ map extract_raw_audio rest)"
proof (induction rest arbitrary: k sps t raws)
  case Nil
  then show ?case by (simp add: fsum_from_def)
next
  case (Cons b rest)
  let ?t' = "fadd F t (duration_of F b)"
  let ?at = "\<lambda>t rest k i. splice_at F chunks
      (fsum_from F t (map (duration_of F) (take (i - k) rest))) i"
  from Cons.prems have le: "Suc k + length rest \<le> length chunks"
    and in_range: "k < length chunks"
    by simp_all
  have range: "[k..<k + length (b # rest)] = k # [Suc k..<Suc k + length rest]"
  proof -
    have bound: "k + length (b # rest) = Suc k + length rest" by simp
    have "k < Suc k + length rest" by simp
    from upt_conv_Cons [OF this] show ?thesis unfolding bound .
  qed
  have "map (?at t (b # rest) k) [Suc k..<Suc k + length rest] =
      map (?at ?t' rest (Suc k)) [Suc k..<Suc k + length rest]"
  proof (rule map_cong)
    fix i assume "i \<in> set [Suc k..<Suc k + length rest]"
    then have i: "Suc k \<le> i" by auto
    show "?at t (b # rest) k i = ?at ?t' rest (Suc k) i"
      by (simp only: fsum_from_tail [OF i])
  qed simp
  then have "map (?at t (b # rest) k) [k..<k + length (b # rest)] =
      splice_at F chunks t k # map (?at ?t' rest (Suc k)) [Suc k..<Suc k + length rest]"
    unfolding range by (simp add: fsum_from_def)
  moreover have "combine_loop F chunks k (b # rest) (sps, t, raws) =
      combine_loop F chunks (Suc k) rest
        (sps @ [splice_at F chunks t k], ?t', raws @ [extract_raw_audio b])"
    using Cons.prems(1) in_range
    by (simp add: calculate_duration_value splice_at_def)
  moreover note Cons.IH [OF _ le, of "sps @ [splice_at F chunks t k]" ?t'
      "raws @ [extract_raw_audio b]"]
  ultimately show ?case
    by (simp add: fsum_from_def)
qed

lemma combine_audio_buffers_value:
  assumes "length audio_buffers \<le> length chunks"
  shows "combine_audio_buffers F audio_buffers chunks =
     Inr (concat (map extract_raw_audio audio_buffers),
          map (\<lambda>i. splice_at F chunks
                 (fsum F (map (duration_of F) (take i audio_buffers))) i)
            [1..<length audio_buffers],
          fsum F (map (duration_of F) audio_buffers))"
proof (cases audio_buffers)
  case Nil
  then show ?thesis
    by (simp add: combine_audio_buffers_def fsum_def fsum_from_def)
next
  case (Cons b rest)
  let ?t = "fadd F (fzero F) (duration_of F b)"
  from assms Cons have le: "1 + length rest \<le> length chunks" by simp
  have first: "combine_loop F chunks 0 (b # rest) ([], fzero F, []) =
      combine_loop F chunks 1 rest ([], ?t, [extract_raw_audio b])"
    by (simp add: calculate_duration_value)
  have "map (\<lambda>i. splice_at F chunks
            (fsum_from F ?t (map (duration_of F) (take (i - 1) rest))) i)
          [1..<1 + length rest] =
        map (\<lambda>i. splice_at F chunks
            (fsum F (map (duration_of F) (take i (b # rest)))) i)
          [1..<1 + length rest]"
  proof (rule map_cong)
    fix i assume "i \<in> set [1..<1 + length rest]"
    then have "Suc 0 \<le> i" by auto
    from fsum_from_tail [OF this, of F "fzero F" b rest]
    show "splice_at F chunks
            (fsum_from F ?t (map (duration_of F) (take (i - 1) rest))) i =
          splice_at F chunks (fsum F (map (duration_of F) (take i (b # rest)))) i"
      by (simp add: fsum_def)
  qed simp
  with combine_loop_value [of 1 rest chunks F "[]" ?t "[extract_raw_audio b]"] le first Cons
  show ?thesis
    by (simp add: combine_audio_buffers_def fsum_def fsum_from_def)
qed

text \<open>
  An instance of the float primitives for evaluating examples: exact arithmetic on the
  reals, with the formatted time left empty.
\<close>

definition exact_ops :: "real float_ops" where
  "exact_ops = \<lparr>truediv = (\<lambda>a b. real_of_int a / real_of_int b), fadd = (+), fzero = 0,
                 format_time = (\<lambda>t. [])\<rparr>"

lemma combine_loop_error:
  "combine_loop F chunks k rest state = Inl e \<Longrightarrow> e = IndexError"
proof (induction rest arbitrary: k state)
  case Nil
  then show ?case by simp
next
  case (Cons b rest)
  obtain sps t raws where state: "state = (sps, t, raws)"
    by (cases state) auto
  from Cons.prems show ?case
    unfolding state
    by (auto simp: calculate_duration_value Let_def split: if_splits dest: Cons.IH)
qed

text \<open>
  C2. When \<open>chunks\<close> has an entry for each of the \<open>N\<close> audio buffers,
  \<open>combine_audio_buffers\<close> returns \<open>N - 1\<close> splice points (none for index 0); the one for
  index \<open>i\<close>, at position \<open>i - 1\<close> of the list, has \<open>splice_index = i\<close> and as timestamp the
  sum of the computed durations of buffers \<open>0..i-1\<close>; and the total duration is the sum
  over all buffers. Sums are Python's: accumulated from \<open>0.0\<close>, left to right.
\<close>

theorem splice_points_count_and_time:
  assumes "length audio_buffers \<le> length chunks"
  shows "\<exists>combined sps total.
     combine_audio_buffers F audio_buffers chunks = Inr (combined, sps, total) \<and>
     length sps = length audio_buffers - 1 \<and>
     (\<forall>i. 0 < i \<and> i < length audio_buffers \<longrightarrow>
        splice_index (sps ! (i - 1)) = i \<and>
        timestamp (sps ! (i - 1)) = fsum F (map (duration_of F) (take i audio_buffers))) \<and>
     total = fsum F (map (duration_of F) audio_buffers)"
proof -
  let ?sps = "map (\<lambda>i. splice_at F chunks
      (fsum F (map (duration_of F) (take i audio_buffers))) i) [1..<length audio_buffers]"
  have "splice_index (?sps ! (i - 1)) = i \<and>
      timestamp (?sps ! (i - 1)) = fsum F (map (duration_of F) (take i audio_buffers))"
    if i: "0 < i" "i < length audio_buffers" for i
  proof -
    from i have "[1..<length audio_buffers] ! (i - 1) = 1 + (i - 1)"
      by (intro nth_upt) simp
    with i have "[1..<length audio_buffers] ! (i - 1) = i" by simp
    moreover from i have "i - 1 < length [1..<length audio_buffers]" by simp
    ultimately have "?sps ! (i - 1) = splice_at F chunks
        (fsum F (map (duration_of F) (take i audio_buffers))) i"
      by (simp only: nth_map)
    then show ?thesis by (simp only: splice_at_def SplicePoint.simps simp_thms)
  qed
  then have "\<forall>i. 0 < i \<and> i < length audio_buffers \<longrightarrow>
      splice_index (?sps ! (i - 1)) = i \<and>
      timestamp (?sps ! (i - 1)) = fsum F (map (duration_of F) (take i audio_buffers))"
    by blast
  moreover have "length ?sps = length audio_buffers - 1" by simp
  ultimately show ?thesis
    unfolding combine_audio_buffers_value [OF assms] by blast
qed

theorem splice_points_count_and_time_witness:
  "length [''ab'', ''cdef'', ''gh''] \<le>
     length [\<lparr>ctext = [72, 105, 46], start_char = 0, end_char = 4\<rparr>,
             \<lparr>ctext = [89, 111, 46], start_char = 4, end_char = 8\<rparr>,
             \<lparr>ctext = [79, 107, 46], start_char = 8, end_char = 11\<rparr>] \<and>
   combine_audio_buffers exact_ops [''ab'', ''cdef'', ''gh'']
     [\<lparr>ctext = [72, 105, 46], start_char = 0, end_char = 4\<rparr>,
      \<lparr>ctext = [89, 111, 46], start_char = 4, end_char = 8\<rparr>,
      \<lparr>ctext = [79, 107, 46], start_char = 8, end_char = 11\<rparr>] =
     Inr (''abcdefgh'',
          [\<lparr>splice_index = 1, timestamp = 2 / 96000, formatted_time = [],
            chunk_start_char = 4, chunk_end_char = 8,
            text_preview = [89, 111, 46, 46, 46, 46]\<rparr>,
           \<lparr>splice_index = 2, timestamp = 6 / 96000, formatted_time = [],
            chunk_start_char = 8, chunk_end_char = 11,
            text_preview = [79, 107, 46, 46, 46, 46]\<rparr>],
          8 / 96000)"
  using splice_points_count_and_time [of "[''ab'', ''cdef'', ''gh'']"
      "[\<lparr>ctext = [72, 105, 46], start_char = 0, end_char = 4\<rparr>,
        \<lparr>ctext = [89, 111, 46], start_char = 4, end_char = 8\<rparr>,
        \<lparr>ctext = [79, 107, 46], start_char = 8, end_char = 11\<rparr>]" exact_ops]
  by (simp add: combine_audio_buffers_def calculate_duration_def extract_raw_audio_def
      bytes_per_second_value exact_ops_def)

text \<open>
  C9, as stated, fails: a buffer of one byte, shorter than the two-byte sample frame, is
  not rejected; it is combined and counted as \<open>1 / 96000\<close> seconds.
\<close>

theorem short_buffer_counterexample:
  "length ''a'' < BITS_PER_SAMPLE div 8 * CHANNELS \<and>
   combine_audio_buffers exact_ops [''a'']
     [\<lparr>ctext = [72, 105, 46], start_char = 0, end_char = 3\<rparr>] =
     Inr (''a'', [], 1 / 96000)"
  by (simp add: combine_audio_buffers_def calculate_duration_def extract_raw_audio_def
      bytes_per_second_value exact_ops_def BITS_PER_SAMPLE_def CHANNELS_def)

text \<open>
  C9, amended. The reassembly step validates nothing about the audio: when \<open>chunks\<close> has
  an entry for every buffer, \<open>combine_audio_buffers\<close> returns the concatenation of the
  raw buffers whatever their lengths (empty and odd-length buffers included); the
  divisor \<open>bytes_per_second\<close> is the constant 96000, so a zero or negative divisor does
  not arise; and the only error the function can raise is the \<open>IndexError\<close> of a
  \<open>chunks\<close> list that is too short.
\<close>

theorem reassembly_accepts_any_buffer:
  "bytes_per_second = 96000 \<and>
   (length audio_buffers \<le> length chunks \<longrightarrow>
      (\<exists>sps total. combine_audio_buffers F audio_buffers chunks =
         Inr (concat (map extract_raw_audio audio_buffers), sps, total))) \<and>
   (\<forall>e. combine_audio_buffers F audio_buffers chunks = Inl e \<longrightarrow> e = IndexError)"
proof -
  have "e = IndexError" if "combine_audio_buffers F audio_buffers chunks = Inl e" for e
    using that combine_loop_error [of F chunks 0 audio_buffers "([], fzero F, [])" e]
    by (auto simp: combine_audio_buffers_def split: sum.splits)
  then show ?thesis
    by (auto simp: bytes_per_second_value combine_audio_buffers_value)
qed

theorem reassembly_accepts_any_buffer_witness:
  "length ['''', ''abc''] \<le>
     length [\<lparr>ctext = [72, 105, 46], start_char = 0, end_char = 4\<rparr>,
             \<lparr>ctext = [89, 111, 46], start_char = 4, end_char = 7\<rparr>] \<and>
   combine_audio_buffers exact_ops ['''', ''abc'']
     [\<lparr>ctext = [72, 105, 46], start_char = 0, end_char = 4\<rparr>,
      \<lparr>ctext = [89, 111, 46], start_char = 4, end_char = 7\<rparr>] =
     Inr (''abc'',
          [\<lparr>splice_index = 1, timestamp = 0, formatted_time = [],
            chunk_start_char = 4, chunk_end_char = 7,
            text_preview = [89, 111, 46, 46, 46, 46]\<rparr>],
          3 / 96000)"
  using reassembly_accepts_any_buffer [of "['''', ''abc'']"
      "[\<lparr>ctext = [72, 105, 46], start_char = 0, end_char = 4\<rparr>,
        \<lparr>ctext = [89, 111, 46], start_char = 4, end_char = 7\<rparr>]" exact_ops]
  by (simp add: combine_audio_buffers_def calculate_duration_def extract_raw_audio_def
      bytes_per_second_value exact_ops_def)

section \<open>Retry and dispatch (example_tts_long_input_compressed.py)\<close>

definition MAX_CONCURRENT_REQUESTS :: nat where
  "MAX_CONCURRENT_REQUESTS = 2"

definition MAX_RETRIES :: nat where
  "MAX_RETRIES = 3"

definition RETRY_BASE_DELAY :: real where
  "RETRY_BASE_DELAY = 1"

text \<open>
  What \<open>synthesize_speech\<close> does to the outside world, in order: an HTTP request, or a
  \<open>time.sleep\<close> of so many seconds. The delays \<open>1.0 * 2 ** attempt\<close> of the code are exact
  in floating point, so they are modelled as reals.
\<close>

datatype event = Post | Sleep real

text \<open>
  The \<open>for attempt in range(MAX_RETRIES)\<close> loop of \<open>synthesize_speech\<close>. The remote
  service is the parameter \<open>post\<close>: \<open>post attempt\<close> is the outcome of the request made in
  that attempt, either the decoded audio or the \<open>RequestException\<close> raised. \<open>trace\<close>
  collects the events so far. After the loop the code raises \<open>RuntimeError\<close>.
\<close>

fun attempts_loop ::
  "(nat \<Rightarrow> failure + bytes) \<Rightarrow> nat list \<Rightarrow> event list \<Rightarrow> event list \<times> (py_error + bytes)" where
  "attempts_loop post [] trace = (trace, Inl RuntimeError)"
| "attempts_loop post (attempt # rest) trace =
     (case post attempt of
        Inr audio_data \<Rightarrow> (trace @ [Post], Inr audio_data)
      | Inl e \<Rightarrow>
          (let is_rate_limit = (e = HTTPError 429);
               is_last_attempt = (attempt = MAX_RETRIES - 1)
           in if is_rate_limit \<and> \<not> is_last_attempt then
                (let delay = RETRY_BASE_DELAY * 2 ^ attempt
                 in attempts_loop post rest (trace @ [Post, Sleep delay]))
              else (trace @ [Post], Inl (RequestException e))))"

definition synthesize_speech :: "(nat \<Rightarrow> failure + bytes) \<Rightarrow> event list \<times> (py_error + bytes)" where
  "synthesize_speech post = attempts_loop post [0..<MAX_RETRIES] []"

text \<open>
  \<open>synthesize_chunk_wrapper\<close> as the result of its future: the index with the audio, or
  the exception. \<open>server index text\<close> is the remote service as the call for that chunk
  sees it.
\<close>

definition synthesize_chunk_wrapper ::
  "(nat \<Rightarrow> pystr \<Rightarrow> nat \<Rightarrow> failure + bytes) \<Rightarrow> TextChunk \<Rightarrow> nat \<Rightarrow> py_error + nat \<times> bytes" where
  "synthesize_chunk_wrapper server chunk index =
     (case snd (synthesize_speech (server index (ctext chunk))) of
        Inl e \<Rightarrow> Inl e
      | Inr audio_data \<Rightarrow> Inr (index, audio_data))"

text \<open>
  The loop over \<open>as_completed(futures)\<close>. \<open>order\<close> lists the futures, by their position
  in \<open>synthesis_args\<close>, in the order in which they complete. \<open>future.result()\<close> raises the
  exception of a failed call; \<open>audio_buffers[index] = audio_data\<close> raises \<open>IndexError\<close>
  out of range.
\<close>

fun collect_loop ::
  "(py_error + nat \<times> bytes) list \<Rightarrow> nat list \<Rightarrow> bytes option list \<Rightarrow>
   py_error + bytes option list" where
  "collect_loop futures [] audio_buffers = Inr audio_buffers"
| "collect_loop futures (future # order) audio_buffers =
     (case futures ! future of
        Inl e \<Rightarrow> Inl e
      | Inr (index, audio_data) \<Rightarrow>
          if index < length audio_buffers then
            collect_loop futures order (audio_buffers[index := Some audio_data])
          else Inl IndexError)"

text \<open>
  \<open>synthesize_all_chunks\<close> of example_tts_long_input_compressed.py. Its pool has
  \<open>MAX_CONCURRENT_REQUESTS\<close> workers; the number of workers decides when a call runs,
  not what its future holds.
\<close>

definition synthesize_all_chunks ::
  "(nat \<Rightarrow> pystr \<Rightarrow> nat \<Rightarrow> failure + bytes) \<Rightarrow> TextChunk list \<Rightarrow> nat list \<Rightarrow>
   py_error + bytes option list" where
  "synthesize_all_chunks server chunks order =
     (let synthesis_args = enumerate 0 chunks;
          audio_buffers = replicate (length chunks) None;
          futures = map (\<lambda>(i, chunk). synthesize_chunk_wrapper server chunk i) synthesis_args
      in collect_loop futures order audio_buffers)"

text \<open>The result of the synthesis call for chunk \<open>i\<close>.\<close>

definition chunk_audio ::
  "(nat \<Rightarrow> pystr \<Rightarrow> nat \<Rightarrow> failure + bytes) \<Rightarrow> TextChunk list \<Rightarrow> nat \<Rightarrow> py_error + bytes" where
  "chunk_audio server chunks i = snd (synthesize_speech (server i (ctext (chunks ! i))))"

section \<open>The dispatcher of example_tts_long_input.py\<close>

text \<open>
  The first script has its own \<open>synthesize_speech\<close> and \<open>synthesize_chunk_wrapper\<close>, and
  dispatches inside \<open>main\<close>; its names carry the suffix \<open>_wav\<close> here. Its
  \<open>synthesize_speech\<close> makes one request and re-raises a \<open>RequestException\<close>: there is no
  retry loop. \<open>post 0\<close> is the outcome of that request.
\<close>

definition synthesize_speech_wav ::
  "(nat \<Rightarrow> failure + bytes) \<Rightarrow> event list \<times> (py_error + bytes)" where
  "synthesize_speech_wav post =
     (case post 0 of
        Inr audio_data \<Rightarrow> ([Post], Inr audio_data)
      | Inl e \<Rightarrow> ([Post], Inl (RequestException e)))"

definition synthesize_chunk_wrapper_wav ::
  "(nat \<Rightarrow> pystr \<Rightarrow> nat \<Rightarrow> failure + bytes) \<Rightarrow> TextChunk \<Rightarrow> nat \<Rightarrow> py_error + nat \<times> bytes" where
  "synthesize_chunk_wrapper_wav server chunk index =
     (case snd (synthesize_speech_wav (server index (ctext chunk))) of
        Inl e \<Rightarrow> Inl e
      | Inr audio_data \<Rightarrow> Inr (index, audio_data))"

text \<open>
  Lines 329 to 344 of \<open>main\<close>: the same collecting loop, in a pool of
  \<open>max_workers = len(chunks)\<close> workers. \<open>ThreadPoolExecutor\<close> raises \<open>ValueError\<close> when
  \<open>max_workers\<close> is not positive, that is, when there is no chunk.
\<close>

definition main_dispatch ::
  "(nat \<Rightarrow> pystr \<Rightarrow> nat \<Rightarrow> failure + bytes) \<Rightarrow> TextChunk list \<Rightarrow> nat list \<Rightarrow>
   py_error + bytes option list" where
  "main_dispatch server chunks order =
     (let synthesis_args = enumerate 0 chunks;
          audio_buffers = replicate (length chunks) None
      in if length chunks \<le> 0 then Inl ValueError
         else (let futures = map (\<lambda>(i, chunk). synthesize_chunk_wrapper_wav server chunk i)
                               synthesis_args
               in collect_loop futures order audio_buffers))"

definition chunk_audio_wav ::
  "(nat \<Rightarrow> pystr \<Rightarrow> nat \<Rightarrow> failure + bytes) \<Rightarrow> TextChunk list \<Rightarrow> nat \<Rightarrow> py_error + bytes" where
  "chunk_audio_wav server chunks i =
     snd (synthesize_speech_wav (server i (ctext (chunks ! i))))"

lemma collect_loop_filled:
  assumes "distinct order"
    and "\<forall>f\<in>set order. f < length bufs \<and> futures ! f = Inr (f, audio f)"
  shows "collect_loop futures order bufs =
     Inr (map (\<lambda>i. if i \<in> set order then Some (audio i) else bufs ! i) [0..<length bufs])"
  using assms
proof (induction order arbitrary: bufs)
  case Nil
  show ?case by (simp add: map_nth)
next
  case (Cons f order)
  let ?bufs = "bufs[f := Some (audio f)]"
  from Cons.prems have f: "f < length bufs" "futures ! f = Inr (f, audio f)" "f \<notin> set order"
    by simp_all
  from Cons.prems have "distinct order"
    and "\<forall>g\<in>set order. g < length ?bufs \<and> futures ! g = Inr (g, audio g)"
    by simp_all
  from Cons.IH [OF this]
  have "collect_loop futures order ?bufs =
      Inr (map (\<lambda>i. if i \<in> set order then Some (audio i) else ?bufs ! i) [0..<length bufs])"
    by simp
  moreover have "map (\<lambda>i. if i \<in> set order then Some (audio i) else ?bufs ! i)
        [0..<length bufs] =
      map (\<lambda>i. if i \<in> set (f # order) then Some (audio i) else bufs ! i) [0..<length bufs]"
    using f by (intro map_cong) (auto simp: nth_list_update)
  ultimately show ?case using f by simp
qed

lemma collect_loop_raises:
  "\<exists>f\<in>set order. isl (futures ! f) \<Longrightarrow> isl (collect_loop futures order bufs)"
proof (induction order arbitrary: bufs)
  case Nil
  then show ?case by simp
next
  case (Cons f order)
  show ?case
  proof (cases "futures ! f")
    case (Inl e)
    then show ?thesis by simp
  next
    case (Inr r)
    with Cons.prems have "\<exists>g\<in>set order. isl (futures ! g)" by auto
    from Cons.IH [OF this] Inr show ?thesis
      by (cases r) simp
  qed
qed

lemma future_nth:
  assumes "i < length chunks"
  shows "map (\<lambda>(i, chunk). synthesize_chunk_wrapper server chunk i) (enumerate 0 chunks) ! i =
     (case chunk_audio server chunks i of Inl e \<Rightarrow> Inl e | Inr a \<Rightarrow> Inr (i, a))"
  using assms
  by (simp add: nth_enumerate_eq synthesize_chunk_wrapper_def chunk_audio_def)

lemma dispatch_filled:
  assumes order: "distinct order" "set order = {0..<length chunks}"
    and ok: "\<forall>i<length chunks. \<not> isl (chunk_audio server chunks i)"
  shows "synthesize_all_chunks server chunks order =
     Inr (map (\<lambda>i. Some (projr (chunk_audio server chunks i))) [0..<length chunks])"
proof -
  let ?futures = "map (\<lambda>(i, chunk). synthesize_chunk_wrapper server chunk i)
      (enumerate 0 chunks)"
  let ?audio = "\<lambda>i. projr (chunk_audio server chunks i)"
  have "?futures ! f = Inr (f, ?audio f)" if "f < length chunks" for f
  proof -
    from ok that obtain a where "chunk_audio server chunks f = Inr a"
      by (cases "chunk_audio server chunks f") auto
    with future_nth [OF that, of server] show ?thesis by simp
  qed
  with order have "\<forall>f\<in>set order.
      f < length (replicate (length chunks) (None :: bytes option)) \<and>
      ?futures ! f = Inr (f, ?audio f)"
    by simp
  from collect_loop_filled [OF order(1) this]
  have "collect_loop ?futures order (replicate (length chunks) None) =
      Inr (map (\<lambda>i. if i \<in> set order then Some (?audio i)
                    else replicate (length chunks) None ! i) [0..<length chunks])"
    by simp
  moreover have "map (\<lambda>i. if i \<in> set order then Some (?audio i)
                    else replicate (length chunks) None ! i) [0..<length chunks] =
      map (\<lambda>i. Some (?audio i)) [0..<length chunks]"
    using order(2) by (intro map_cong) auto
  ultimately show ?thesis
    by (simp add: synthesize_all_chunks_def)
qed

lemma dispatch_raises:
  assumes order: "set order = {0..<length chunks}"
    and bad: "i < length chunks" "isl (chunk_audio server chunks i)"
  shows "isl (synthesize_all_chunks server chunks order)"
proof -
  let ?futures = "map (\<lambda>(i, chunk). synthesize_chunk_wrapper server chunk i)
      (enumerate 0 chunks)"
  from bad obtain e where "chunk_audio server chunks i = Inl e"
    by (cases "chunk_audio server chunks i") auto
  with future_nth [OF bad(1), of server] have "isl (?futures ! i)" by simp
  moreover from order bad(1) have "i \<in> set order" by simp
  ultimately have "\<exists>f\<in>set order. isl (?futures ! f)" by blast
  from collect_loop_raises [OF this] show ?thesis
    by (simp add: synthesize_all_chunks_def)
qed

lemma future_nth_wav:
  assumes "i < length chunks"
  shows "map (\<lambda>(i, chunk). synthesize_chunk_wrapper_wav server chunk i) (enumerate 0 chunks) ! i =
     (case chunk_audio_wav server chunks i of Inl e \<Rightarrow> Inl e | Inr a \<Rightarrow> Inr (i, a))"
  using assms
  by (simp add: nth_enumerate_eq synthesize_chunk_wrapper_wav_def chunk_audio_wav_def)

lemma main_dispatch_empty: "main_dispatch server [] order = Inl ValueError"
  by (simp add: main_dispatch_def)

lemma main_dispatch_filled:
  assumes order: "distinct order" "set order = {0..<length chunks}"
    and chunks: "chunks \<noteq> []"
    and ok: "\<forall>i<length chunks. \<not> isl (chunk_audio_wav server chunks i)"
  shows "main_dispatch server chunks order =
     Inr (map (\<lambda>i. Some (projr (chunk_audio_wav server chunks i))) [0..<length chunks])"
proof -
  let ?futures = "map (\<lambda>(i, chunk). synthesize_chunk_wrapper_wav server chunk i)
      (enumerate 0 chunks)"
  let ?audio = "\<lambda>i. projr (chunk_audio_wav server chunks i)"
  have "?futures ! f = Inr (f, ?audio f)" if "f < length chunks" for f
  proof -
    from ok that obtain a where "chunk_audio_wav server chunks f = Inr a"
      by (cases "chunk_audio_wav server chunks f") auto
    with future_nth_wav [OF that, of server] show ?thesis by simp
  qed
  with order have "\<forall>f\<in>set order.
      f < length (replicate (length chunks) (None :: bytes option)) \<and>
      ?futures ! f = Inr (f, ?audio f)"
    by simp
  from collect_loop_filled [OF order(1) this]
  have "collect_loop ?futures order (replicate (length chunks) None) =
      Inr (map (\<lambda>i. if i \<in> set order then Some (?audio i)
                    else replicate (length chunks) None ! i) [0..<length chunks])"
    by simp
  moreover have "map (\<lambda>i. if i \<in> set order then Some (?audio i)
                    else replicate (length chunks) None ! i) [0..<length chunks] =
      map (\<lambda>i. Some (?audio i)) [0..<length chunks]"
    using order(2) by (intro map_cong) auto
  ultimately show ?thesis
    using chunks by (simp add: main_dispatch_def)
qed

lemma main_dispatch_raises:
  assumes order: "set order = {0..<length chunks}"
    and bad: "i < length chunks" "isl (chunk_audio_wav server chunks i)"
  shows "isl (main_dispatch server chunks order)"
proof -
  let ?futures = "map (\<lambda>(i, chunk). synthesize_chunk_wrapper_wav server chunk i)
      (enumerate 0 chunks)"
  from bad obtain e where "chunk_audio_wav server chunks i = Inl e"
    by (cases "chunk_audio_wav server chunks i") auto
  with future_nth_wav [OF bad(1), of server] have "isl (?futures ! i)" by simp
  moreover from order bad(1) have "i \<in> set order" by simp
  ultimately have "\<exists>f\<in>set order. isl (?futures ! f)" by blast
  from collect_loop_raises [OF this] show ?thesis
    by (simp add: main_dispatch_def)
qed

lemma main_dispatch_returned:
  assumes order: "distinct order" "set order = {0..<length chunks}"
    and ret: "main_dispatch server chunks order = Inr bufs"
  shows "chunks \<noteq> [] \<and> (\<forall>i<length chunks. \<not> isl (chunk_audio_wav server chunks i)) \<and>
     bufs = map (\<lambda>i. Some (projr (chunk_audio_wav server chunks i))) [0..<length chunks]"
proof -
  from ret main_dispatch_empty [of server order] have chunks: "chunks \<noteq> []"
    by auto
  have ok: "\<forall>i<length chunks. \<not> isl (chunk_audio_wav server chunks i)"
  proof (intro allI impI notI)
    fix i assume "i < length chunks" "isl (chunk_audio_wav server chunks i)"
    from main_dispatch_raises [OF order(2) this] ret show False by simp
  qed
  from main_dispatch_filled [OF order chunks ok] ret chunks ok show ?thesis
    by simp
qed

lemma dispatch_returned:
  assumes order: "distinct order" "set order = {0..<length chunks}"
    and ret: "synthesize_all_chunks server chunks order = Inr bufs"
  shows "(\<forall>i<length chunks. \<not> isl (chunk_audio server chunks i)) \<and>
     bufs = map (\<lambda>i. Some (projr (chunk_audio server chunks i))) [0..<length chunks]"
proof -
  have ok: "\<forall>i<length chunks. \<not> isl (chunk_audio server chunks i)"
  proof (intro allI impI notI)
    fix i assume "i < length chunks" "isl (chunk_audio server chunks i)"
    from dispatch_raises [OF order(2) this] ret show False by simp
  qed
  from dispatch_filled [OF order ok] ret ok show ?thesis
    by simp
qed

lemma range_MAX_RETRIES: "[0..<MAX_RETRIES] = [0, 1, 2]"
  by (simp add: MAX_RETRIES_def upt_rec)

lemma rate_limited_call:
  assumes "\<forall>attempt. post attempt = Inl (HTTPError 429)"
  shows "synthesize_speech post =
     ([Post, Sleep (RETRY_BASE_DELAY * 2 ^ 0), Post, Sleep (RETRY_BASE_DELAY * 2 ^ 1), Post],
      Inl (RequestException (HTTPError 429)))"
  unfolding synthesize_speech_def range_MAX_RETRIES
  using assms by (simp add: MAX_RETRIES_def)

text \<open>
  C3. Whatever the order in which the per-chunk calls complete (every chunk's future
  exactly once), the result sequence a dispatcher returns is index-aligned with the
  chunks: slot \<open>i\<close> holds the audio of the call made for chunk \<open>i\<close>. This holds of
  \<open>synthesize_all_chunks\<close> and of the dispatcher in \<open>main\<close> of example_tts_long_input.py.
  Each returns such a sequence when all calls succeed (\<open>main\<close> only for at least one
  chunk: with no chunk its pool raises \<open>ValueError\<close>), and returns nothing when a call
  fails.
\<close>

theorem dispatch_index_aligned:
  assumes "distinct order" and "set order = {0..<length chunks}"
  shows "((\<forall>i<length chunks. \<not> isl (chunk_audio server chunks i)) \<longrightarrow>
          synthesize_all_chunks server chunks order =
            Inr (map (\<lambda>i. Some (projr (chunk_audio server chunks i))) [0..<length chunks])) \<and>
         ((\<exists>i<length chunks. isl (chunk_audio server chunks i)) \<longrightarrow>
          isl (synthesize_all_chunks server chunks order)) \<and>
         (\<forall>bufs. synthesize_all_chunks server chunks order = Inr bufs \<longrightarrow>
            bufs = map (\<lambda>i. Some (projr (chunk_audio server chunks i))) [0..<length chunks]) \<and>
         (chunks \<noteq> [] \<and> (\<forall>i<length chunks. \<not> isl (chunk_audio_wav server chunks i)) \<longrightarrow>
          main_dispatch server chunks order =
            Inr (map (\<lambda>i. Some (projr (chunk_audio_wav server chunks i)))
                   [0..<length chunks])) \<and>
         ((\<exists>i<length chunks. isl (chunk_audio_wav server chunks i)) \<longrightarrow>
          isl (main_dispatch server chunks order)) \<and>
         (chunks = [] \<longrightarrow> main_dispatch server chunks order = Inl ValueError) \<and>
         (\<forall>bufs. main_dispatch server chunks order = Inr bufs \<longrightarrow>
            bufs = map (\<lambda>i. Some (projr (chunk_audio_wav server chunks i)))
                     [0..<length chunks])"
proof -
  have all: "(\<forall>i<length chunks. \<not> isl (chunk_audio server chunks i)) \<longrightarrow>
      synthesize_all_chunks server chunks order =
        Inr (map (\<lambda>i. Some (projr (chunk_audio server chunks i))) [0..<length chunks])"
    using dispatch_filled [OF assms, of server] by simp
  have some: "(\<exists>i<length chunks. isl (chunk_audio server chunks i)) \<longrightarrow>
      isl (synthesize_all_chunks server chunks order)"
    using dispatch_raises [OF assms(2), of _ server] by auto
  have ret: "\<forall>bufs. synthesize_all_chunks server chunks order = Inr bufs \<longrightarrow>
      bufs = map (\<lambda>i. Some (projr (chunk_audio server chunks i))) [0..<length chunks]"
    using dispatch_returned [OF assms, of server] by simp
  have all_wav: "chunks \<noteq> [] \<and>
      (\<forall>i<length chunks. \<not> isl (chunk_audio_wav server chunks i)) \<longrightarrow>
      main_dispatch server chunks order =
        Inr (map (\<lambda>i. Some (projr (chunk_audio_wav server chunks i))) [0..<length chunks])"
    using main_dispatch_filled [OF assms, of server] by simp
  have some_wav: "(\<exists>i<length chunks. isl (chunk_audio_wav server chunks i)) \<longrightarrow>
      isl (main_dispatch server chunks order)"
    using main_dispatch_raises [OF assms(2), of _ server] by auto
  have none: "chunks = [] \<longrightarrow> main_dispatch server chunks order = Inl ValueError"
    by (simp add: main_dispatch_empty)
  have ret_wav: "\<forall>bufs. main_dispatch server chunks order = Inr bufs \<longrightarrow>
      bufs = map (\<lambda>i. Some (projr (chunk_audio_wav server chunks i))) [0..<length chunks]"
    using main_dispatch_returned [OF assms, of server] by simp
  show ?thesis
    by (intro conjI all some ret all_wav some_wav none ret_wav)
qed

theorem dispatch_index_aligned_witness:
  "distinct [2, 0, 1 :: nat] \<and>
   set [2, 0, 1] =
     {0..<length [\<lparr>ctext = [72, 105, 46], start_char = 0, end_char = 4\<rparr>,
                  \<lparr>ctext = [89, 101, 115, 46], start_char = 4, end_char = 9\<rparr>,
                  \<lparr>ctext = [79, 107], start_char = 9, end_char = 11\<rparr>]} \<and>
   synthesize_all_chunks (\<lambda>i s attempt. Inr (replicate (length s) CHR ''z''))
     [\<lparr>ctext = [72, 105, 46], start_char = 0, end_char = 4\<rparr>,
      \<lparr>ctext = [89, 101, 115, 46], start_char = 4, end_char = 9\<rparr>,
      \<lparr>ctext = [79, 107], start_char = 9, end_char = 11\<rparr>] [2, 0, 1] =
     Inr [Some ''zzz'', Some ''zzzz'', Some ''zz''] \<and>
   main_dispatch (\<lambda>i s attempt. Inr (replicate (length s) CHR ''z''))
     [\<lparr>ctext = [72, 105, 46], start_char = 0, end_char = 4\<rparr>,
      \<lparr>ctext = [89, 101, 115, 46], start_char = 4, end_char = 9\<rparr>,
      \<lparr>ctext = [79, 107], start_char = 9, end_char = 11\<rparr>] [2, 0, 1] =
     Inr [Some ''zzz'', Some ''zzzz'', Some ''zz'']"
proof -
  let ?chunks = "[\<lparr>ctext = [72, 105, 46], start_char = 0, end_char = 4\<rparr>,
      \<lparr>ctext = [89, 101, 115, 46], start_char = 4, end_char = 9\<rparr>,
      \<lparr>ctext = [79, 107], start_char = 9, end_char = 11\<rparr>]"
  let ?server = "\<lambda>(i :: nat) (s :: pystr) (attempt :: nat).
      (Inr (replicate (length s) CHR ''z'') :: failure + bytes)"
  have order: "distinct [2, 0, 1 :: nat]" "set [2, 0, 1] = {0..<length ?chunks}"
    by auto
  have audio: "chunk_audio ?server ?chunks i =
      Inr (replicate (length (ctext (?chunks ! i))) CHR ''z'')" for i
    unfolding chunk_audio_def synthesize_speech_def range_MAX_RETRIES by simp
  have audio_wav: "chunk_audio_wav ?server ?chunks i =
      Inr (replicate (length (ctext (?chunks ! i))) CHR ''z'')" for i
    unfolding chunk_audio_wav_def synthesize_speech_wav_def by simp
  have range: "[0..<length ?chunks] = [0, 1, 2]"
    by (simp add: upt_rec)
  note aligned = dispatch_index_aligned [OF order, of ?server]
  note compressed = aligned [THEN conjunct1]
  note wav = aligned [THEN conjunct2, THEN conjunct2, THEN conjunct2, THEN conjunct1]
  from compressed wav order range show ?thesis
    by (simp add: audio audio_wav)
qed

text \<open>
  C7. If every request of a call is answered with HTTP 429, \<open>synthesize_speech\<close> makes
  exactly \<open>MAX_RETRIES\<close> requests, sleeps \<open>RETRY_BASE_DELAY * 2 ^ attempt\<close> after attempt
  0 and after attempt 1, and then raises the exception; a dispatcher run that contains
  such a call returns no buffers.
\<close>

theorem rate_limit_exhausts_retries:
  assumes "\<forall>attempt. post attempt = Inl (HTTPError 429)"
  shows "synthesize_speech post =
           ([Post, Sleep (RETRY_BASE_DELAY * 2 ^ 0), Post, Sleep (RETRY_BASE_DELAY * 2 ^ 1),
             Post],
            Inl (RequestException (HTTPError 429))) \<and>
         length (filter (\<lambda>e. e = Post) (fst (synthesize_speech post))) = MAX_RETRIES \<and>
         (\<forall>server chunks order i.
            set order = {0..<length chunks} \<and> i < length chunks \<and>
            server i (ctext (chunks ! i)) = post \<longrightarrow>
            isl (synthesize_all_chunks server chunks order))"
proof -
  note call = rate_limited_call [OF assms]
  have "isl (synthesize_all_chunks server chunks order)"
    if "set order = {0..<length chunks}" "i < length chunks"
      "server i (ctext (chunks ! i)) = post" for server chunks order i
  proof -
    from that(3) call have "isl (chunk_audio server chunks i)"
      by (simp add: chunk_audio_def)
    from dispatch_raises [OF that(1,2) this] show ?thesis .
  qed
  then have run: "\<forall>server chunks order i.
      set order = {0..<length chunks} \<and> i < length chunks \<and>
      server i (ctext (chunks ! i)) = post \<longrightarrow>
      isl (synthesize_all_chunks server chunks order)"
    by blast
  from call have "length (filter (\<lambda>e. e = Post) (fst (synthesize_speech post))) = MAX_RETRIES"
    by (simp add: MAX_RETRIES_def)
  with call run show ?thesis
    by blast
qed

theorem rate_limit_exhausts_retries_witness:
  "synthesize_speech (\<lambda>attempt. Inl (HTTPError 429)) =
     ([Post, Sleep 1, Post, Sleep 2, Post], Inl (RequestException (HTTPError 429))) \<and>
   length (filter (\<lambda>e. e = Post)
     (fst (synthesize_speech (\<lambda>attempt. Inl (HTTPError 429))))) = 3 \<and>
   isl (synthesize_all_chunks (\<lambda>i s attempt. Inl (HTTPError 429))
     [\<lparr>ctext = [72, 105, 46], start_char = 0, end_char = 3\<rparr>] [0])"
proof -
  from rate_limit_exhausts_retries [of "\<lambda>attempt. Inl (HTTPError 429)"]
  have call: "synthesize_speech (\<lambda>attempt. Inl (HTTPError 429)) =
      ([Post, Sleep (RETRY_BASE_DELAY * 2 ^ 0), Post, Sleep (RETRY_BASE_DELAY * 2 ^ 1), Post],
       Inl (RequestException (HTTPError 429)))"
    and count: "length (filter (\<lambda>e. e = Post)
      (fst (synthesize_speech (\<lambda>attempt. Inl (HTTPError 429))))) = MAX_RETRIES"
    and run: "\<And>server chunks order i.
      set order = {0..<length chunks} \<and> i < length chunks \<and>
      server i (ctext (chunks ! i)) = (\<lambda>attempt. Inl (HTTPError 429)) \<Longrightarrow>
      isl (synthesize_all_chunks server chunks order)"
    by blast+
  have "isl (synthesize_all_chunks (\<lambda>i s attempt. Inl (HTTPError 429))
      [\<lparr>ctext = [72, 105, 46], start_char = 0, end_char = 3\<rparr>] [0])"
    by (rule run [of "[0]" _ 0]) simp
  with call count show ?thesis
    by (simp add: RETRY_BASE_DELAY_def MAX_RETRIES_def)
qed

text \<open>
  C8, as stated, fails: a call that times out is not retried. It makes one request, does
  not sleep, and raises; a call answered with HTTP 429 and then with audio is retried
  and returns the audio.
\<close>

theorem timeout_not_retried_counterexample:
  "synthesize_speech (\<lambda>attempt. Inl Timeout) = ([Post], Inl (RequestException Timeout)) \<and>
   synthesize_speech (\<lambda>attempt. if attempt = 0 then Inl (HTTPError 429) else Inr ''RIFF'') =
     ([Post, Sleep 1, Post], Inr ''RIFF'')"
  unfolding synthesize_speech_def range_MAX_RETRIES
  by (simp add: MAX_RETRIES_def RETRY_BASE_DELAY_def)

text \<open>
  C8, amended. Only an HTTP 429 response is retried. A request that fails in any other
  way, a network timeout included, ends the call at once: after \<open>k\<close> rate-limited
  attempts (\<open>k < MAX_RETRIES\<close>), a timeout at attempt \<open>k\<close> is raised after \<open>k + 1\<close> requests,
  with no sleep after it, and a dispatcher run that contains the call returns no
  buffers: the pipeline fails on the first occurrence.
\<close>

theorem only_rate_limit_retried:
  assumes "k < MAX_RETRIES"
    and "\<forall>j<k. post j = Inl (HTTPError 429)"
    and "post k = Inl e" and "e \<noteq> HTTPError 429"
  shows "snd (synthesize_speech post) = Inl (RequestException e) \<and>
         length (filter (\<lambda>ev. ev = Post) (fst (synthesize_speech post))) = k + 1 \<and>
         last (fst (synthesize_speech post)) = Post \<and>
         (\<forall>server chunks order i.
            set order = {0..<length chunks} \<and> i < length chunks \<and>
            server i (ctext (chunks ! i)) = post \<longrightarrow>
            isl (synthesize_all_chunks server chunks order))"
proof -
  from assms(1) have "k = 0 \<or> k = 1 \<or> k = 2"
    unfolding MAX_RETRIES_def by arith
  then consider "k = 0" | "k = 1" | "k = 2"
    by blast
  then have call: "snd (synthesize_speech post) = Inl (RequestException e) \<and>
      length (filter (\<lambda>ev. ev = Post) (fst (synthesize_speech post))) = k + 1 \<and>
      last (fst (synthesize_speech post)) = Post"
  proof cases
    case 1
    with assms show ?thesis
      unfolding synthesize_speech_def range_MAX_RETRIES
      by (simp add: MAX_RETRIES_def)
  next
    case 2
    with assms have "post 0 = Inl (HTTPError 429)" "post 1 = Inl e" by simp_all
    with assms(4) show ?thesis using 2
      unfolding synthesize_speech_def range_MAX_RETRIES
      by (simp add: MAX_RETRIES_def)
  next
    case 3
    with assms have "post 0 = Inl (HTTPError 429)" "post 1 = Inl (HTTPError 429)"
      "post 2 = Inl e"
      by simp_all
    with assms(4) show ?thesis using 3
      unfolding synthesize_speech_def range_MAX_RETRIES
      by (simp add: MAX_RETRIES_def)
  qed
  have "isl (synthesize_all_chunks server chunks order)"
    if "set order = {0..<length chunks}" "i < length chunks"
      "server i (ctext (chunks ! i)) = post" for server chunks order i
  proof -
    from that(3) call have "isl (chunk_audio server chunks i)"
      by (simp add: chunk_audio_def)
    from dispatch_raises [OF that(1,2) this] show ?thesis .
  qed
  then have "\<forall>server chunks order i.
      set order = {0..<length chunks} \<and> i < length chunks \<and>
      server i (ctext (chunks ! i)) = post \<longrightarrow>
      isl (synthesize_all_chunks server chunks order)"
    by blast
  with call show ?thesis by blast
qed

theorem only_rate_limit_retried_witness:
  "(1 :: nat) < MAX_RETRIES \<and> Timeout \<noteq> HTTPError 429 \<and>
   snd (synthesize_speech (\<lambda>attempt. if attempt = 0 then Inl (HTTPError 429) else Inl Timeout))
     = Inl (RequestException Timeout) \<and>
   length (filter (\<lambda>ev. ev = Post)
     (fst (synthesize_speech
        (\<lambda>attempt. if attempt = 0 then Inl (HTTPError 429) else Inl Timeout)))) = 1 + 1 \<and>
   last (fst (synthesize_speech
     (\<lambda>attempt. if attempt = 0 then Inl (HTTPError 429) else Inl Timeout))) = Post \<and>
   isl (synthesize_all_chunks
     (\<lambda>i s attempt. if attempt = 0 then Inl (HTTPError 429) else Inl Timeout)
     [\<lparr>ctext = [72, 105, 46], start_char = 0, end_char = 3\<rparr>] [0])"
proof -
  let ?post = "\<lambda>attempt :: nat.
      if attempt = 0 then Inl (HTTPError 429) else (Inl Timeout :: failure + bytes)"
  have k: "(1 :: nat) < MAX_RETRIES" "\<forall>j<1. ?post j = Inl (HTTPError 429)"
    "?post 1 = Inl Timeout" "Timeout \<noteq> HTTPError 429"
    by (simp_all add: MAX_RETRIES_def)
  from only_rate_limit_retried [OF k]
  have call: "snd (synthesize_speech ?post) = Inl (RequestException Timeout)"
    "length (filter (\<lambda>ev. ev = Post) (fst (synthesize_speech ?post))) = 1 + 1"
    "last (fst (synthesize_speech ?post)) = Post"
    and run: "\<And>server chunks order i.
      set order = {0..<length chunks} \<and> i < length chunks \<and>
      server i (ctext (chunks ! i)) = ?post \<Longrightarrow>
      isl (synthesize_all_chunks server chunks order)"
    by blast+
  have "isl (synthesize_all_chunks (\<lambda>i s. ?post)
      [\<lparr>ctext = [72, 105, 46], start_char = 0, end_char = 3\<rparr>] [0])"
    by (rule run [of "[0]" _ 0]) simp
  with k(1,4) call show ?thesis
    by simp
qed

end
